theory Spec2Isabelle
  imports Main "HOL-Library.Word" "HOL-Library.Signed_Division"
begin

unbundle bit_operations_syntax

section \<open>Machine integers and the Go library functions the package calls\<close>

type_synonym int64 = "64 word"
type_synonym uint64 = "64 word"
type_synonym uint16 = "16 word"
type_synonym byte = "8 word"

text \<open>
  Go's \<open>/\<close> and \<open>%\<close> on \<open>int64\<close> truncate towards zero; the remainder takes the sign
  of the dividend. The only divisor in the package is the non-zero constant
  \<open>SnowflakeTimeUnit\<close>.
\<close>

definition i64_div :: "int64 \<Rightarrow> int64 \<Rightarrow> int64" where
  "i64_div a b = word_of_int (sint a sdiv sint b)"

definition i64_rem :: "int64 \<Rightarrow> int64 \<Rightarrow> int64" where
  "i64_rem a b = word_of_int (sint a smod sint b)"

text \<open>
  A \<open>time.Time\<close> is modelled by the instant it denotes: nanoseconds since the Unix epoch,
  unbounded (Go's range is wider than 64 bits of nanoseconds). \<open>UnixNano\<close> computes in
  \<open>int64\<close> and so wraps; \<open>After\<close> compares instants; the zero \<open>Time\<close> is
  January 1 of year 1, 00:00:00 UTC. \<open>time.Duration\<close> is an \<open>int64\<close> of nanoseconds.
\<close>

type_synonym Time = int
type_synonym Duration = int64

definition UnixNano :: "Time \<Rightarrow> int64" where
  "UnixNano t = word_of_int t"

definition After :: "Time \<Rightarrow> Time \<Rightarrow> bool" where
  "After t u \<longleftrightarrow> u < t"

definition zeroTime :: Time where
  "zeroTime = - 62135596800 * 1000000000"

definition IsZero :: "Time \<Rightarrow> bool" where
  "IsZero t \<longleftrightarrow> t = zeroTime"

text \<open>\<open>time.Date(2014, 9, 1, 0, 0, 0, 0, time.UTC)\<close>: Unix second 1409529600.\<close>

definition Date_2014_9_1 :: Time where
  "Date_2014_9_1 = 1409529600 * 1000000000"

text \<open>
  A \<open>net.IP\<close> is a byte slice; \<open>nil\<close> is the empty list. \<open>To4\<close> and \<open>IsLoopback\<close>
  are the methods of Go's package \<open>net\<close>. A \<open>net.Addr\<close> is an interface value: either
  a \<open>*net.IPNet\<close> (address and mask) or some other implementation.
\<close>

type_synonym IP = "byte list"

datatype Addr = IPNet IP "byte list" | OtherAddr string

definition To4 :: "IP \<Rightarrow> IP" where
  "To4 ip =
     (if length ip = 4 then ip
      else if length ip = 16 \<and> take 10 ip = replicate 10 0 \<and> ip ! 10 = 255 \<and> ip ! 11 = 255
           then drop 12 ip
      else [])"

definition IPv6loopback :: IP where
  "IPv6loopback = [0, 0, 0, 0, 0, 0, 0, 0, 0, 0, 0, 0, 0, 0, 0, 1]"

definition IsLoopback :: "IP \<Rightarrow> bool" where
  "IsLoopback ip = (let ip4 = To4 ip in if ip4 \<noteq> [] then ip4 ! 0 = 127 else ip = IPv6loopback)"

section \<open>Constants, errors and data of the package\<close>

definition BitLenTime :: nat where
  "BitLenTime = 39"

definition BitLenSequence :: nat where
  "BitLenSequence = 8"

definition BitLenMachineID :: nat where
  "BitLenMachineID = 63 - BitLenTime - BitLenSequence"

definition SnowflakeTimeUnit :: int64 where
  "SnowflakeTimeUnit = 10000000"

text \<open>
  The four error values of the package, and \<open>ErrOther\<close> for any error value made elsewhere
  (by a caller's \<open>MachineID\<close> function or by the interface enumerator). Both of those return
  a Go \<open>error\<close>, so they can return any value of this type.
\<close>

datatype error =
    ErrStartTimeAhead
  | ErrNoPrivateAddress
  | ErrOverTimeLimit
  | ErrInvalidMachineID
  | ErrOther string

text \<open>
  \<open>Settings\<close>: a nil function is \<open>None\<close>. \<open>MachineID\<close> takes no argument and \<open>New\<close> calls
  it at most once, so it is given by the pair it returns.
\<close>

record Settings =
  st_StartTime :: Time
  st_MachineID :: "(uint16 \<times> error option) option"
  st_CheckMachineID :: "(uint16 \<Rightarrow> bool) option"

text \<open>
  The generator. The mutex serialises the calls of \<open>NextID\<close>: each call runs from start to
  end on the state the previous one left, which is what the state passing below expresses.
\<close>

record Snowflake =
  sf_startTime :: int64
  sf_elapsedTime :: int64
  sf_sequence :: uint16
  sf_machineID :: uint16

section \<open>Time helpers\<close>

definition toSnowflakeTime :: "Time \<Rightarrow> int64" where
  "toSnowflakeTime t = i64_div (UnixNano t) SnowflakeTimeUnit"

text \<open>The first argument is the reading of \<open>time.Now()\<close>.\<close>

definition currentElapsedTime :: "Time \<Rightarrow> int64 \<Rightarrow> int64" where
  "currentElapsedTime now startTime = toSnowflakeTime now - startTime"

definition sleepTime :: "Time \<Rightarrow> int64 \<Rightarrow> Duration" where
  "sleepTime now overtime =
     overtime * SnowflakeTimeUnit - i64_rem (UnixNano now) SnowflakeTimeUnit"

section \<open>Encoding and decoding\<close>

definition toID :: "Snowflake \<Rightarrow> uint64 \<times> error option" where
  "toID sf =
     (if push_bit BitLenTime 1 \<le>s sf_elapsedTime sf then (0, Some ErrOverTimeLimit)
      else (push_bit (BitLenSequence + BitLenMachineID) (sf_elapsedTime sf)
              OR push_bit BitLenMachineID (ucast (sf_sequence sf))
              OR ucast (sf_machineID sf), None))"

definition elapsedTime :: "uint64 \<Rightarrow> uint64" where
  "elapsedTime v = drop_bit (BitLenSequence + BitLenMachineID) v"

definition SequenceNumber :: "uint64 \<Rightarrow> uint64" where
  "SequenceNumber v =
     (let maskSequence = push_bit BitLenMachineID (push_bit BitLenSequence 1 - 1)
      in drop_bit BitLenMachineID (v AND maskSequence))"

definition MachineID :: "uint64 \<Rightarrow> uint64" where
  "MachineID v = (let maskMachineID = push_bit BitLenMachineID 1 - 1 in v AND maskMachineID)"

definition Decompose :: "uint64 \<Rightarrow> (string \<rightharpoonup> uint64)" where
  "Decompose v =
     (let msb = drop_bit 63 v;
          time = elapsedTime v;
          sequence = SequenceNumber v;
          machineID = MachineID v
      in [''id'' \<mapsto> v, ''msb'' \<mapsto> msb, ''time'' \<mapsto> time,
          ''sequence'' \<mapsto> sequence, ''machine-id'' \<mapsto> machineID])"

text \<open>
  The expression \<open>toID\<close> returns, on three fields already widened to \<open>uint64\<close>: what
  re-encoding the parts of a decomposed ID means.
\<close>

definition encode :: "uint64 \<Rightarrow> uint64 \<Rightarrow> uint64 \<Rightarrow> uint64" where
  "encode time sequence machineID =
     push_bit (BitLenSequence + BitLenMachineID) time
       OR push_bit BitLenMachineID sequence OR machineID"

section \<open>The generator\<close>

text \<open>
  \<open>NextID now now' sf\<close>: \<open>now\<close> is the clock reading of \<open>currentElapsedTime\<close>, \<open>now'\<close>
  the one \<open>sleepTime\<close> takes (read only when the sequence wraps). The result is the pair
  the call returns, the argument of \<open>time.Sleep\<close> when it is called, and the state the call
  leaves.
\<close>

definition NextID ::
  "Time \<Rightarrow> Time \<Rightarrow> Snowflake \<Rightarrow> (uint64 \<times> error option) \<times> Duration option \<times> Snowflake" where
  "NextID now now' sf =
     (let maskSequence = push_bit BitLenSequence 1 - 1;
          current = currentElapsedTime now (sf_startTime sf)
      in if sf_elapsedTime sf <s current
         then (let sf1 = sf\<lparr>sf_elapsedTime := current, sf_sequence := 0\<rparr>
               in (toID sf1, None, sf1))
         else (let sf1 = sf\<lparr>sf_sequence := (sf_sequence sf + 1) AND maskSequence\<rparr>
               in if sf_sequence sf1 = 0
                  then (let sf2 = sf1\<lparr>sf_elapsedTime := sf_elapsedTime sf1 + 1\<rparr>;
                            overtime = sf_elapsedTime sf2 - current
                        in (toID sf2, Some (sleepTime now' overtime), sf2))
                  else (toID sf1, None, sf1)))"

text \<open>Successive calls on one instance, each with its two clock readings.\<close>

fun NextID_calls ::
  "Snowflake \<Rightarrow> (Time \<times> Time) list
     \<Rightarrow> ((uint64 \<times> error option) \<times> Duration option \<times> Snowflake) list" where
  "NextID_calls sf [] = []"
| "NextID_calls sf ((now, now') # cs) =
     (let r = NextID now now' sf in r # NextID_calls (snd (snd r)) cs)"

section \<open>The default machine identifier\<close>

text \<open>
  \<open>isPrivateIPv4\<close> is called on the result of \<open>To4\<close> only, which is nil or has four bytes.
  On a non-nil slice of fewer than two bytes the source would index out of range.
\<close>

fun isPrivateIPv4 :: "IP \<Rightarrow> bool" where
  "isPrivateIPv4 (a # b # _) =
     (a = 10 \<or> a = 172 \<and> (16 \<le> b \<and> b < 32) \<or> a = 192 \<and> b = 168 \<or> a = 169 \<and> b = 254)"
| "isPrivateIPv4 _ = False"

text \<open>The loop of \<open>privateIPv4\<close> over the enumerated addresses.\<close>

fun privateIPv4_loop :: "Addr list \<Rightarrow> IP \<times> error option" where
  "privateIPv4_loop [] = ([], Some ErrNoPrivateAddress)"
| "privateIPv4_loop (OtherAddr _ # as) = privateIPv4_loop as"
| "privateIPv4_loop (IPNet ip _ # as) =
     (if IsLoopback ip then privateIPv4_loop as
      else (let ip4 = To4 ip
            in if isPrivateIPv4 ip4 then (ip4, None) else privateIPv4_loop as))"

text \<open>The argument is what the enumerator \<open>interfaceAddrs()\<close> returns.\<close>

definition privateIPv4 :: "Addr list \<times> error option \<Rightarrow> IP \<times> error option" where
  "privateIPv4 interfaceAddrs =
     (case interfaceAddrs of
        (as, Some err) \<Rightarrow> ([], Some err)
      | (as, None) \<Rightarrow> privateIPv4_loop as)"

definition lower16BitPrivateIP :: "Addr list \<times> error option \<Rightarrow> uint16 \<times> error option" where
  "lower16BitPrivateIP interfaceAddrs =
     (case privateIPv4 interfaceAddrs of
        (ip, Some err) \<Rightarrow> (0, Some err)
      | (ip, None) \<Rightarrow> (push_bit 8 (ucast (ip ! 2)) + ucast (ip ! 3), None))"

section \<open>Construction\<close>

text \<open>
  \<open>New now defaultInterfaceAddrs st\<close>: \<open>now\<close> is the reading of \<open>time.Now()\<close> and
  \<open>defaultInterfaceAddrs\<close> what the package variable of that name returns when called.
\<close>

definition New ::
  "Time \<Rightarrow> Addr list \<times> error option \<Rightarrow> Settings \<Rightarrow> Snowflake option \<times> error option" where
  "New now defaultInterfaceAddrs st =
     (if After (st_StartTime st) now then (None, Some ErrStartTimeAhead)
      else
        (let sf = \<lparr>sf_startTime = 0, sf_elapsedTime = 0,
                   sf_sequence = push_bit BitLenSequence 1 - 1, sf_machineID = 0\<rparr>;
             sf = (if IsZero (st_StartTime st)
                   then sf\<lparr>sf_startTime := toSnowflakeTime Date_2014_9_1\<rparr>
                   else sf\<lparr>sf_startTime := toSnowflakeTime (st_StartTime st)\<rparr>);
             (machineID, err) =
               (case st_MachineID st of
                  None \<Rightarrow> lower16BitPrivateIP defaultInterfaceAddrs
                | Some r \<Rightarrow> r);
             sf = sf\<lparr>sf_machineID := machineID\<rparr>
         in case err of
              Some e \<Rightarrow> (None, Some e)
            | None \<Rightarrow>
                (case st_CheckMachineID st of
                   None \<Rightarrow> (Some sf, None)
                 | Some check \<Rightarrow>
                     if \<not> check (sf_machineID sf) then (None, Some ErrInvalidMachineID)
                     else (Some sf, None))))"

definition NewSnowflake ::
  "Time \<Rightarrow> Addr list \<times> error option \<Rightarrow> Settings \<Rightarrow> Snowflake option" where
  "NewSnowflake now defaultInterfaceAddrs st = fst (New now defaultInterfaceAddrs st)"

section \<open>Invariant and order of the generator states\<close>

text \<open>
  \<open>generator_inv n sf\<close>: what holds of the state after \<open>n\<close> calls of \<open>NextID\<close> on a
  generator made by \<open>New\<close>. \<open>advanced\<close> relates the states before and after one call,
  \<open>before\<close> is the lexicographic order on (elapsedTime, sequence).
\<close>

definition generator_inv :: "nat \<Rightarrow> Snowflake \<Rightarrow> bool" where
  "generator_inv n sf \<longleftrightarrow>
     - (2 ^ 40) < sint (sf_startTime sf) \<and> sint (sf_startTime sf) < 2 ^ 40 \<and>
     0 \<le> sint (sf_elapsedTime sf) \<and> sint (sf_elapsedTime sf) \<le> 2 ^ 41 + int n \<and>
     unat (sf_sequence sf) \<le> 255"

definition advanced :: "Snowflake \<Rightarrow> Snowflake \<Rightarrow> bool" where
  "advanced sf sf' \<longleftrightarrow>
     sint (sf_elapsedTime sf) < sint (sf_elapsedTime sf') \<and> sf_sequence sf' = 0 \<or>
     sf_elapsedTime sf' = sf_elapsedTime sf \<and> unat (sf_sequence sf') = unat (sf_sequence sf) + 1"

definition before :: "Snowflake \<Rightarrow> Snowflake \<Rightarrow> bool" where
  "before sf sf' \<longleftrightarrow>
     sint (sf_elapsedTime sf) < sint (sf_elapsedTime sf') \<or>
     sf_elapsedTime sf' = sf_elapsedTime sf \<and> unat (sf_sequence sf) < unat (sf_sequence sf')"

section \<open>The address ranges, as the RFCs give them\<close>

text \<open>
  RFC 1918 reserves the blocks 10/8, 172.16/12 and 192.168/16, RFC 3927 the block
  169.254/16. \<open>ipv4_value\<close> is the 32-bit value of four octets, most significant first;
  \<open>in_block a base n\<close> holds when \<open>a\<close> and \<open>base\<close> agree on their first \<open>n\<close> bits.
  \<open>qualifying\<close> is what the documentation asks of an interface address: not a loopback
  address, an IPv4 address, in one of the four blocks. \<open>lower16_of\<close> is the lower 16 bits
  of its value. These follow the documents, not the code, and are compared with the code
  below.
\<close>

definition ipv4_value :: "IP \<Rightarrow> int" where
  "ipv4_value ip =
     uint (ip ! 0) * 2 ^ 24 + uint (ip ! 1) * 2 ^ 16 + uint (ip ! 2) * 2 ^ 8 + uint (ip ! 3)"

definition in_block :: "int \<Rightarrow> int \<Rightarrow> nat \<Rightarrow> bool" where
  "in_block a base n \<longleftrightarrow> a div 2 ^ (32 - n) = base div 2 ^ (32 - n)"

definition private_or_link_local :: "int \<Rightarrow> bool" where
  "private_or_link_local a \<longleftrightarrow>
     in_block a (10 * 2 ^ 24) 8 \<or>
     in_block a (172 * 2 ^ 24 + 16 * 2 ^ 16) 12 \<or>
     in_block a (192 * 2 ^ 24 + 168 * 2 ^ 16) 16 \<or>
     in_block a (169 * 2 ^ 24 + 254 * 2 ^ 16) 16"

definition qualifying :: "Addr \<Rightarrow> bool" where
  "qualifying a =
     (case a of
        OtherAddr _ \<Rightarrow> False
      | IPNet ip _ \<Rightarrow>
          \<not> IsLoopback ip \<and> To4 ip \<noteq> [] \<and> private_or_link_local (ipv4_value (To4 ip)))"

definition lower16_of :: "Addr \<Rightarrow> uint16" where
  "lower16_of a =
     (case a of
        OtherAddr _ \<Rightarrow> 0
      | IPNet ip _ \<Rightarrow> word_of_int (ipv4_value (To4 ip) mod 2 ^ 16))"

fun addr_ip :: "Addr \<Rightarrow> IP" where
  "addr_ip (IPNet ip _) = ip"
| "addr_ip (OtherAddr _) = []"

section \<open>Example inputs\<close>

text \<open>
  A generator with machine identifier 5 and the default epoch, read one tick after the
  epoch; and one whose epoch lies more than \<open>2 ^ 39\<close> ticks before the clock reading 0.
\<close>

definition Settings_5 :: Settings where
  "Settings_5 =
     \<lparr>st_StartTime = zeroTime, st_MachineID = Some (5, None), st_CheckMachineID = None\<rparr>"

definition generator_5 :: Snowflake where
  "generator_5 =
     \<lparr>sf_startTime = 140952960000, sf_elapsedTime = 0, sf_sequence = 255, sf_machineID = 5\<rparr>"

definition now_1 :: Time where
  "now_1 = Date_2014_9_1 + 10000000"

definition Settings_old :: Settings where
  "Settings_old =
     \<lparr>st_StartTime = - 8000000000000000000, st_MachineID = Some (5, None),
      st_CheckMachineID = None\<rparr>"

definition generator_old :: Snowflake where
  "generator_old =
     \<lparr>sf_startTime = - 800000000000, sf_elapsedTime = 0, sf_sequence = 255, sf_machineID = 5\<rparr>"

definition Settings_auto :: Settings where
  "Settings_auto = \<lparr>st_StartTime = zeroTime, st_MachineID = None, st_CheckMachineID = None\<rparr>"

definition addrs_example :: "Addr list" where
  "addrs_example =
     [OtherAddr ''unix'',
      IPNet [127, 0, 0, 1] [255, 0, 0, 0],
      IPNet [8, 8, 8, 8] [255, 255, 255, 0],
      IPNet [0, 0, 0, 0, 0, 0, 0, 0, 0, 0, 255, 255, 192, 168, 1, 2] [],
      IPNet [10, 0, 0, 1] [255, 0, 0, 0]]"

section \<open>Bit fields and signed bounds\<close>

lemmas bitlens = BitLenTime_def BitLenSequence_def BitLenMachineID_def

lemma push_bit_1_minus_1: "push_bit n 1 - 1 = (mask n :: 'a::len word)"
  by (simp add: mask_eq_exp_minus_1)

lemma elapsedTime_eq: "elapsedTime v = drop_bit 24 v"
  by (simp add: elapsedTime_def bitlens)

lemma MachineID_eq: "MachineID v = take_bit 16 v"
  unfolding MachineID_def Let_def push_bit_1_minus_1 bitlens
  by (simp add: take_bit_eq_mask)

lemma SequenceNumber_eq: "SequenceNumber v = take_bit 8 (drop_bit 16 v)"
  unfolding SequenceNumber_def Let_def push_bit_1_minus_1 bitlens
  by (rule bit_word_eqI) (auto simp add: bit_simps)

lemma encode_eq: "encode t s m = push_bit 24 t OR push_bit 16 s OR m"
  by (simp add: encode_def bitlens)

lemma encode_decompose: "encode (elapsedTime v) (SequenceNumber v) (MachineID v) = v"
  unfolding encode_eq elapsedTime_eq SequenceNumber_eq MachineID_eq
proof (rule bit_word_eqI)
  fix n
  assume "n < LENGTH(64)"
  then have n: "n < 64" by simp
  consider "n < 16" | "16 \<le> n" "n < 24" | "24 \<le> n" by linarith
  then show "bit (push_bit 24 (drop_bit 24 v) OR push_bit 16 (take_bit 8 (drop_bit 16 v))
                    OR take_bit 16 v) n = bit v n"
    using n by cases (auto simp add: bit_simps)
qed

lemma sint_i64_of_int: "- (2 ^ 63) \<le> x \<Longrightarrow> x < 2 ^ 63 \<Longrightarrow> sint (word_of_int x :: 64 word) = x"
  by (simp add: sint_sbintrunc' signed_take_bit_int_eq_self)

lemma sint_i64_range: "- (2 ^ 63) \<le> sint (w :: 64 word) \<and> sint w < 2 ^ 63"
  using sint_ge [of w] sint_lt [of w] by simp

lemma sdiv_unit_bounds:
  fixes x :: int
  assumes "- (2 ^ 63) \<le> x" "x < 2 ^ 63"
  shows "- (2 ^ 40) < x sdiv 10000000 \<and> x sdiv 10000000 < 2 ^ 40"
proof (cases "0 \<le> x")
  case True
  then have "x sdiv 10000000 = x div 10000000"
    by (simp add: signed_divide_int_def sgn_if)
  moreover have "x div 10000000 \<le> 2 ^ 63 div 10000000"
    using assms by (intro zdiv_mono1) simp_all
  moreover have "0 \<le> x div 10000000" using True by simp
  ultimately show ?thesis by simp
next
  case False
  then have "x sdiv 10000000 = - ((- x) div 10000000)"
    by (simp add: signed_divide_int_def sgn_if)
  moreover have "(- x) div 10000000 \<le> 2 ^ 63 div 10000000"
    using assms by (intro zdiv_mono1) simp_all
  moreover have "0 \<le> (- x) div 10000000" using False by simp
  ultimately show ?thesis by simp
qed

lemma sint_toSnowflakeTime:
  "- (2 ^ 40) < sint (toSnowflakeTime t) \<and> sint (toSnowflakeTime t) < 2 ^ 40"
proof -
  let ?x = "sint (UnixNano t)"
  have b: "- (2 ^ 40) < ?x sdiv 10000000 \<and> ?x sdiv 10000000 < 2 ^ 40"
    using sint_i64_range [of "UnixNano t"] by (intro sdiv_unit_bounds) simp_all
  then have "sint (word_of_int (?x sdiv 10000000) :: 64 word) = ?x sdiv 10000000"
    by (intro sint_i64_of_int) simp_all
  then show ?thesis using b
    by (simp add: toSnowflakeTime_def i64_div_def SnowflakeTimeUnit_def)
qed

lemma sint_sub_i64:
  "- (2 ^ 63) \<le> sint a - sint b \<Longrightarrow> sint a - sint b < 2 ^ 63 \<Longrightarrow>
   sint (a - b :: 64 word) = sint a - sint b"
  by (simp add: sint_word_ariths signed_take_bit_int_eq_self)

lemma sint_succ_i64:
  "sint a < 2 ^ 63 - 1 \<Longrightarrow> sint (a + 1 :: 64 word) = sint a + 1"
  using sint_i64_range [of a] by (simp add: sint_word_ariths signed_take_bit_int_eq_self)

lemma sint_currentElapsedTime:
  assumes "- (2 ^ 40) < sint st" "sint st < 2 ^ 40"
  shows "sint (currentElapsedTime now st) = sint (toSnowflakeTime now) - sint st"
  unfolding currentElapsedTime_def
  using assms sint_toSnowflakeTime [of now] by (intro sint_sub_i64) simp_all

lemma seq_step_unat:
  "unat ((q + 1) AND (push_bit BitLenSequence 1 - 1) :: 16 word) = (unat q + 1) mod 256"
proof -
  have "unat (take_bit 8 (q + 1)) = (unat q + 1) mod 65536 mod 256"
    by (simp add: unat_word_ariths take_bit_eq_mod unsigned_take_bit_eq)
  also have "\<dots> = (unat q + 1) mod 256"
    by (simp add: mod_mod_cancel)
  finally show ?thesis
    unfolding push_bit_1_minus_1 bitlens by (simp add: take_bit_eq_mask)
qed

section \<open>One call and successive calls\<close>

lemma NextID_cases:
  assumes "NextID now now' sf = (r, d, sf')"
  defines "c \<equiv> currentElapsedTime now (sf_startTime sf)"
  defines "q \<equiv> (sf_sequence sf + 1) AND (push_bit BitLenSequence 1 - 1)"
  shows "r = toID sf' \<and> sf_startTime sf' = sf_startTime sf \<and> sf_machineID sf' = sf_machineID sf \<and>
     (sf_elapsedTime sf <s c \<and> sf_elapsedTime sf' = c \<and> sf_sequence sf' = 0 \<and> d = None \<or>
      \<not> sf_elapsedTime sf <s c \<and> q \<noteq> 0 \<and> sf_elapsedTime sf' = sf_elapsedTime sf \<and>
        sf_sequence sf' = q \<and> d = None \<or>
      \<not> sf_elapsedTime sf <s c \<and> q = 0 \<and> sf_elapsedTime sf' = sf_elapsedTime sf + 1 \<and>
        sf_sequence sf' = 0 \<and> d = Some (sleepTime now' (sf_elapsedTime sf + 1 - c)))"
  using assms(1) unfolding c_def q_def NextID_def Let_def
  by (auto split: if_splits)

lemma NextID_step:
  assumes r: "NextID now now' sf = (r, d, sf')" and w: "generator_inv n sf" and n: "n < 2 ^ 62"
  shows "generator_inv (Suc n) sf' \<and> advanced sf sf'"
proof -
  let ?c = "currentElapsedTime now (sf_startTime sf)"
  let ?q = "(sf_sequence sf + 1) AND (push_bit BitLenSequence 1 - 1)"
  have st: "- (2 ^ 40) < sint (sf_startTime sf)" "sint (sf_startTime sf) < 2 ^ 40"
    and e: "0 \<le> sint (sf_elapsedTime sf)" "sint (sf_elapsedTime sf) \<le> 2 ^ 41 + int n"
    and q: "unat (sf_sequence sf) \<le> 255"
    using w by (simp_all add: generator_inv_def)
  have c: "sint ?c = sint (toSnowflakeTime now) - sint (sf_startTime sf)"
    using st by (rule sint_currentElapsedTime)
  have cb: "sint ?c < 2 ^ 41"
    using c st sint_toSnowflakeTime [of now] by simp
  have n': "int n < 2 ^ 62" using n by (simp flip: of_nat_less_iff)
  have e1: "sint (sf_elapsedTime sf + 1) = sint (sf_elapsedTime sf) + 1"
    using e n' by (intro sint_succ_i64) simp
  have uq: "unat ?q = (unat (sf_sequence sf) + 1) mod 256"
    by (rule seq_step_unat)
  from NextID_cases [OF r]
  consider
      (fresh) "sf_elapsedTime sf <s ?c" "sf_elapsedTime sf' = ?c" "sf_sequence sf' = 0"
    | (same) "?q \<noteq> 0" "sf_elapsedTime sf' = sf_elapsedTime sf" "sf_sequence sf' = ?q"
    | (wrap) "?q = 0" "sf_elapsedTime sf' = sf_elapsedTime sf + 1" "sf_sequence sf' = 0"
    by blast
  then have "(0 \<le> sint (sf_elapsedTime sf') \<and> sint (sf_elapsedTime sf') \<le> 2 ^ 41 + int (Suc n) \<and>
      unat (sf_sequence sf') \<le> 255) \<and> advanced sf sf'"
  proof cases
    case fresh
    then show ?thesis using e cb by (simp add: advanced_def word_sless_alt)
  next
    case same
    have "unat ?q \<noteq> 0" using same(1) by (simp add: unat_eq_0)
    then have lt: "unat (sf_sequence sf) + 1 < 256"
      using uq q by (cases "unat (sf_sequence sf) = 255") simp_all
    then have "unat ?q = unat (sf_sequence sf) + 1" using uq by simp
    then show ?thesis using same e lt by (simp add: advanced_def)
  next
    case wrap
    then show ?thesis using e e1 by (simp add: advanced_def)
  qed
  moreover have "sf_startTime sf' = sf_startTime sf" using NextID_cases [OF r] by simp
  ultimately show ?thesis using st by (simp add: generator_inv_def)
qed

lemma length_NextID_calls: "length (NextID_calls sf cs) = length cs"
  by (induction cs arbitrary: sf) (auto simp add: Let_def)

lemma NextID_calls_nth_0:
  "0 < length cs \<Longrightarrow> NextID_calls sf cs ! 0 = NextID (fst (cs ! 0)) (snd (cs ! 0)) sf"
  by (cases cs) (auto simp add: Let_def)

lemma NextID_calls_nth_Suc:
  "Suc i < length cs \<Longrightarrow>
   NextID_calls sf cs ! Suc i =
     NextID (fst (cs ! Suc i)) (snd (cs ! Suc i)) (snd (snd (NextID_calls sf cs ! i)))"
proof (induction cs arbitrary: sf i)
  case Nil
  then show ?case by simp
next
  case (Cons c cs)
  obtain now now' where c: "c = (now, now')" by (cases c)
  show ?case
  proof (cases i)
    case 0
    then show ?thesis using Cons.prems c NextID_calls_nth_0 [of cs]
      by (simp add: Let_def)
  next
    case (Suc k)
    then show ?thesis using Cons.prems c Cons.IH [of k]
      by (simp add: Let_def)
  qed
qed

lemma NextID_calls_inv:
  assumes "generator_inv n sf" "n + length cs < 2 ^ 62"
  shows "i < length cs \<Longrightarrow> generator_inv (n + Suc i) (snd (snd (NextID_calls sf cs ! i)))"
proof (induction i)
  case 0
  obtain r d sf' where r: "NextID (fst (cs ! 0)) (snd (cs ! 0)) sf = (r, d, sf')"
    by (cases "NextID (fst (cs ! 0)) (snd (cs ! 0)) sf") auto
  have "n < 2 ^ 62" using assms(2) by simp
  from NextID_step [OF r assms(1) this] show ?case
    using 0 r by (simp add: NextID_calls_nth_0)
next
  case (Suc i)
  let ?s = "snd (snd (NextID_calls sf cs ! i))"
  obtain r d sf' where r: "NextID (fst (cs ! Suc i)) (snd (cs ! Suc i)) ?s = (r, d, sf')"
    by (cases "NextID (fst (cs ! Suc i)) (snd (cs ! Suc i)) ?s") auto
  have w: "generator_inv (n + Suc i) ?s" using Suc by simp
  have "n + Suc i < 2 ^ 62" using assms(2) Suc.prems by simp
  from NextID_step [OF r w this] show ?case
    using Suc.prems r by (simp add: NextID_calls_nth_Suc)
qed

lemma NextID_calls_advanced:
  assumes "generator_inv n sf" "n + length cs < 2 ^ 62" "Suc i < length cs"
  shows "advanced (snd (snd (NextID_calls sf cs ! i))) (snd (snd (NextID_calls sf cs ! Suc i)))"
proof -
  let ?s = "snd (snd (NextID_calls sf cs ! i))"
  obtain r d sf' where r: "NextID (fst (cs ! Suc i)) (snd (cs ! Suc i)) ?s = (r, d, sf')"
    by (cases "NextID (fst (cs ! Suc i)) (snd (cs ! Suc i)) ?s") auto
  have w: "generator_inv (n + Suc i) ?s" using assms by (intro NextID_calls_inv) simp_all
  have "n + Suc i < 2 ^ 62" using assms by simp
  from NextID_step [OF r w this] show ?thesis
    using assms(3) r by (simp add: NextID_calls_nth_Suc)
qed

lemma toID_error:
  "snd (toID sf) = (if 2 ^ 39 \<le> sint (sf_elapsedTime sf) then Some ErrOverTimeLimit else None)"
  by (simp add: toID_def word_sle_eq BitLenTime_def)

lemma toID_error_value: "snd (toID sf) \<noteq> None \<Longrightarrow> fst (toID sf) = 0"
  by (simp add: toID_def split: if_splits)

lemma take_bit_of_sint_bounds:
  fixes e :: "64 word"
  assumes "0 \<le> sint e" "sint e < 2 ^ 39"
  shows "take_bit 39 e = e"
proof (rule bit_word_eqI)
  fix n
  assume "n < LENGTH(64)"
  then have n: "n < 64" by simp
  have k: "take_bit 39 (sint e) = sint e"
    using assms by (simp add: take_bit_int_eq_self)
  have "n < 39" if "bit e n"
  proof -
    have "bit (sint e) n" using that by (simp add: bit_sint_iff)
    then have "bit (take_bit 39 (sint e)) n" by (simp only: k)
    then show ?thesis by (simp add: bit_take_bit_iff)
  qed
  then show "bit (take_bit 39 e) n = bit e n"
    by (auto simp add: bit_take_bit_iff)
qed

lemma uint_eq_sint:
  fixes e :: "64 word"
  assumes "0 \<le> sint e"
  shows "uint e = sint e"
proof -
  have nb: "\<not> bit e 63" using assms bit_last_iff [of e] by simp
  then have "\<not> bit (uint e) 63" by (simp add: bit_uint_iff)
  then have "sint e = take_bit 63 (uint e)"
    by (simp add: sint_uint signed_take_bit_eq_if_positive)
  also have "\<dots> = uint e"
  proof (rule bit_eqI)
    fix n
    have "n < 63" if "bit e n"
      using that nb bit_imp_le_length [of e n] by (cases "n = 63") simp_all
    then show "bit (take_bit 63 (uint e)) n = bit (uint e) n"
      by (auto simp add: bit_take_bit_iff bit_uint_iff)
  qed
  finally show ?thesis by simp
qed

lemma take_bit_of_unat_bound:
  fixes q :: "16 word"
  assumes "unat q \<le> 255"
  shows "take_bit 8 q = q"
proof -
  have "unat q < unat (2 ^ 8 :: 16 word)" using assms by simp
  then have "q < 2 ^ 8" by (simp only: word_less_nat_alt)
  then show ?thesis by (simp add: take_bit_eq_mask less_mask_eq)
qed

lemma fields_of_packed:
  fixes e :: "64 word" and q m :: "16 word"
  defines "v \<equiv> push_bit 24 (take_bit 39 e) OR push_bit 16 (ucast (take_bit 8 q)) OR ucast m"
  shows "drop_bit 24 v = take_bit 39 e"
    and "take_bit 8 (drop_bit 16 v) = ucast (take_bit 8 q)"
    and "take_bit 16 v = ucast m"
    and "\<not> bit v 63"
  unfolding v_def
     apply (rule bit_word_eqI; auto simp add: bit_simps dest: bit_imp_le_length)
    apply (rule bit_word_eqI; auto simp add: bit_simps dest: bit_imp_le_length)
   apply (rule bit_word_eqI; auto simp add: bit_simps dest: bit_imp_le_length)
  apply (auto simp add: bit_simps dest: bit_imp_le_length)
  done

lemma toID_fields:
  assumes "0 \<le> sint (sf_elapsedTime sf)" "sint (sf_elapsedTime sf) < 2 ^ 39"
    and "unat (sf_sequence sf) \<le> 255"
  shows "snd (toID sf) = None"
    and "elapsedTime (fst (toID sf)) = sf_elapsedTime sf"
    and "SequenceNumber (fst (toID sf)) = ucast (sf_sequence sf)"
    and "MachineID (fst (toID sf)) = ucast (sf_machineID sf)"
    and "\<not> bit (fst (toID sf)) 63"
proof -
  let ?e = "sf_elapsedTime sf" and ?q = "sf_sequence sf" and ?m = "sf_machineID sf"
  have e: "take_bit 39 ?e = ?e" using assms(1,2) by (rule take_bit_of_sint_bounds)
  have q: "take_bit 8 ?q = ?q" using assms(3) by (rule take_bit_of_unat_bound)
  show ok: "snd (toID sf) = None" using assms(2) by (simp add: toID_error)
  have "fst (toID sf) = push_bit 24 ?e OR push_bit 16 (ucast ?q) OR ucast ?m"
    using assms(2) by (simp add: toID_def word_sle_eq bitlens)
  then have v: "fst (toID sf) =
      push_bit 24 (take_bit 39 ?e) OR push_bit 16 (ucast (take_bit 8 ?q)) OR ucast ?m"
    by (simp only: e q)
  show "elapsedTime (fst (toID sf)) = ?e"
    using fields_of_packed(1) [of ?e ?q ?m] by (simp only: v elapsedTime_eq e)
  show "SequenceNumber (fst (toID sf)) = ucast ?q"
    using fields_of_packed(2) [of ?e ?q ?m] by (simp only: v SequenceNumber_eq q)
  show "MachineID (fst (toID sf)) = ucast ?m"
    using fields_of_packed(3) [of ?e ?q ?m] by (simp only: v MachineID_eq)
  show "\<not> bit (fst (toID sf)) 63"
    unfolding v by (rule fields_of_packed(4))
qed

lemma advanced_before: "advanced sf sf' \<Longrightarrow> before sf sf'"
  by (auto simp add: advanced_def before_def)

lemma before_trans: "before a b \<Longrightarrow> before b c \<Longrightarrow> before a c"
  by (auto simp add: before_def)

lemma NextID_calls_before:
  assumes "generator_inv n sf" "n + length cs < 2 ^ 62"
  shows "i < j \<Longrightarrow> j < length cs \<Longrightarrow>
    before (snd (snd (NextID_calls sf cs ! i))) (snd (snd (NextID_calls sf cs ! j)))"
proof (induction j)
  case 0
  then show ?case by simp
next
  case (Suc j)
  have step: "advanced (snd (snd (NextID_calls sf cs ! j))) (snd (snd (NextID_calls sf cs ! Suc j)))"
    using assms Suc.prems by (intro NextID_calls_advanced) simp_all
  show ?case
  proof (cases "i = j")
    case True
    then show ?thesis using step by (simp add: advanced_before)
  next
    case False
    then have "before (snd (snd (NextID_calls sf cs ! i))) (snd (snd (NextID_calls sf cs ! j)))"
      using Suc by simp
    then show ?thesis using step by (blast intro: before_trans advanced_before)
  qed
qed

lemma NextID_calls_result:
  "i < length cs \<Longrightarrow> fst (NextID_calls sf cs ! i) = toID (snd (snd (NextID_calls sf cs ! i)))"
proof (cases i)
  case 0
  assume "i < length cs"
  then show ?thesis using 0 NextID_cases [of "fst (cs ! 0)" "snd (cs ! 0)" sf]
    by (cases "NextID (fst (cs ! 0)) (snd (cs ! 0)) sf") (simp add: NextID_calls_nth_0)
next
  case (Suc k)
  assume "i < length cs"
  then show ?thesis
    using Suc NextID_cases [of "fst (cs ! Suc k)" "snd (cs ! Suc k)" "snd (snd (NextID_calls sf cs ! k))"]
    by (cases "NextID (fst (cs ! Suc k)) (snd (cs ! Suc k)) (snd (snd (NextID_calls sf cs ! k)))")
       (simp add: NextID_calls_nth_Suc)
qed

lemma New_inv:
  assumes "New now ia st = (Some sf, None)"
  shows "generator_inv 0 sf"
proof -
  have "sf_elapsedTime sf = 0 \<and> sf_sequence sf = 255 \<and>
    (sf_startTime sf = toSnowflakeTime Date_2014_9_1 \<or>
     sf_startTime sf = toSnowflakeTime (st_StartTime st))"
    using assms
    by (auto simp add: New_def Let_def BitLenSequence_def
        split: if_splits option.splits prod.splits)
  then show ?thesis
    using sint_toSnowflakeTime [of Date_2014_9_1] sint_toSnowflakeTime [of "st_StartTime st"]
    by (auto simp add: generator_inv_def)
qed

lemma ucast_16_64_inj:
  fixes q q' :: "16 word"
  assumes "(ucast q :: 64 word) = ucast q'"
  shows "q = q'"
proof (rule bit_word_eqI)
  fix n
  assume "n < LENGTH(16)"
  then have "bit (ucast q :: 64 word) n = bit q n" "bit (ucast q' :: 64 word) n = bit q' n"
    by (simp_all add: bit_ucast_iff)
  then show "bit q n = bit q' n" using assms by simp
qed

lemma unat_ucast_16_64: "unat (ucast (q :: 16 word) :: 64 word) = unat q"
proof -
  have "unat q < 2 ^ 64"
    using unsigned_less [of q, where ?'a = nat] by (simp add: order_less_trans [of _ "2 ^ 16"])
  then show ?thesis
    by (simp add: unsigned_ucast_eq take_bit_nat_eq_self)
qed

lemma not_bit_63_less:
  fixes v :: "64 word"
  assumes "\<not> bit v 63"
  shows "v < 2 ^ 63"
proof -
  have "take_bit 63 v = v"
  proof (rule bit_word_eqI)
    fix n
    assume "n < LENGTH(64)"
    then show "bit (take_bit 63 v) n = bit v n"
      using assms by (cases "n = 63") (auto simp add: bit_take_bit_iff)
  qed
  then have "v = v AND mask 63" by (simp add: take_bit_eq_mask)
  moreover have "v AND mask 63 < 2 ^ 63" by (rule and_mask_less') simp
  ultimately show ?thesis by simp
qed

lemma post_state_facts:
  assumes "New now ia st = (Some sf, None)" "length cs < 2 ^ 62" "i < length cs"
  defines "s \<equiv> snd (snd (NextID_calls sf cs ! i))"
  shows "0 \<le> sint (sf_elapsedTime s)" "unat (sf_sequence s) \<le> 255"
    "fst (NextID_calls sf cs ! i) = toID s"
proof -
  have "generator_inv (0 + Suc i) s"
    unfolding s_def using assms(1-3) by (intro NextID_calls_inv New_inv) simp_all
  then show "0 \<le> sint (sf_elapsedTime s)" "unat (sf_sequence s) \<le> 255"
    by (simp_all add: generator_inv_def)
  show "fst (NextID_calls sf cs ! i) = toID s"
    unfolding s_def using assms(3) by (rule NextID_calls_result)
qed

lemma ucast_16_64_succ:
  fixes q q' :: "16 word"
  assumes "unat q' = unat q + 1"
  shows "(ucast q' :: 64 word) = ucast q + 1" and "(ucast q :: 64 word) < ucast q'"
proof -
  have lt: "unat q + 1 < 2 ^ 64"
    using unsigned_less [of q', where ?'a = nat] assms by simp
  have "unat (ucast q + 1 :: 64 word) = (unat q + 1) mod 2 ^ 64"
    by (simp add: unat_word_ariths unat_ucast_16_64)
  also have "\<dots> = unat q + 1" using lt by simp
  finally have "unat (ucast q' :: 64 word) = unat (ucast q + 1 :: 64 word)"
    using assms by (simp add: unat_ucast_16_64)
  then show "(ucast q' :: 64 word) = ucast q + 1" by (simp only: word_unat_eq_iff)
  show "(ucast q :: 64 word) < ucast q'"
    using assms by (simp add: word_less_nat_alt unat_ucast_16_64)
qed

lemma word_less_of_sint:
  fixes a b :: "64 word"
  assumes "0 \<le> sint a" "sint a < sint b"
  shows "a < b"
  using assms uint_eq_sint [of a] uint_eq_sint [of b] by (simp add: word_less_def)

lemma seq_step_neq: "(q + 1) AND (push_bit BitLenSequence 1 - 1) \<noteq> (q :: 16 word)"
proof
  assume "(q + 1) AND (push_bit BitLenSequence 1 - 1) = q"
  then have "unat q = (unat q + 1) mod 256" using seq_step_unat [of q] by simp
  moreover have "(unat q + 1) mod 256 \<noteq> unat q"
  proof (cases "unat q < 255")
    case True
    then show ?thesis by simp
  next
    case False
    then show ?thesis
      using mod_less_divisor [of 256 "unat q + 1"] by (cases "unat q = 255") simp_all
  qed
  ultimately show False by simp
qed

lemma NextID_result: "fst (NextID now now' sf) = toID (snd (snd (NextID now now' sf)))"
  using NextID_cases [of now now' sf] by (cases "NextID now now' sf") simp

section \<open>Uniqueness\<close>

text \<open>
  C1. On one generator made by \<open>New\<close>, whatever the clock readings \<open>cs\<close> of the
  successive calls of \<open>NextID\<close>, two distinct calls that both succeed return different
  values. The number of calls is below \<open>2 ^ 62\<close>, so that the \<open>int64\<close> increment of
  \<open>elapsedTime\<close> does not wrap.
\<close>

theorem NextID_unique:
  assumes "New now ia st = (Some sf, None)"
    and "length cs < 2 ^ 62"
    and "i < j" and "j < length cs"
    and "snd (fst (NextID_calls sf cs ! i)) = None"
    and "snd (fst (NextID_calls sf cs ! j)) = None"
  shows "fst (fst (NextID_calls sf cs ! i)) \<noteq> fst (fst (NextID_calls sf cs ! j))"
proof
  let ?a = "snd (snd (NextID_calls sf cs ! i))" and ?b = "snd (snd (NextID_calls sf cs ! j))"
  assume eq: "fst (fst (NextID_calls sf cs ! i)) = fst (fst (NextID_calls sf cs ! j))"
  have i: "i < length cs" using assms(3,4) by simp
  note a = post_state_facts [OF assms(1,2) i] and b = post_state_facts [OF assms(1,2,4)]
  have ea: "sint (sf_elapsedTime ?a) < 2 ^ 39"
    using assms(5) a(3) by (simp add: toID_error split: if_splits)
  have eb: "sint (sf_elapsedTime ?b) < 2 ^ 39"
    using assms(6) b(3) by (simp add: toID_error split: if_splits)
  have "elapsedTime (fst (toID ?a)) = elapsedTime (fst (toID ?b))"
    and "SequenceNumber (fst (toID ?a)) = SequenceNumber (fst (toID ?b))"
    using eq a(3) b(3) by simp_all
  then have "sf_elapsedTime ?a = sf_elapsedTime ?b"
    and "(ucast (sf_sequence ?a) :: 64 word) = ucast (sf_sequence ?b)"
    using toID_fields(2,3) [OF a(1) ea a(2)] toID_fields(2,3) [OF b(1) eb b(2)] by simp_all
  then have "sf_elapsedTime ?a = sf_elapsedTime ?b" and "sf_sequence ?a = sf_sequence ?b"
    by (simp_all add: ucast_16_64_inj)
  moreover have "before ?a ?b"
  proof -
    have "0 + length cs < 2 ^ 62" using assms(2) by simp
    with New_inv [OF assms(1)] show ?thesis using assms(3,4) by (rule NextID_calls_before)
  qed
  ultimately show False by (simp add: before_def)
qed

theorem NextID_unique_witness:
  "New now_1 ([], None) Settings_5 = (Some generator_5, None) \<and>
   length [(now_1, now_1), (now_1, now_1)] < 2 ^ 62 \<and>
   snd (fst (NextID_calls generator_5 [(now_1, now_1), (now_1, now_1)] ! 0)) = None \<and>
   snd (fst (NextID_calls generator_5 [(now_1, now_1), (now_1, now_1)] ! 1)) = None \<and>
   fst (fst (NextID_calls generator_5 [(now_1, now_1), (now_1, now_1)] ! 0)) \<noteq>
   fst (fst (NextID_calls generator_5 [(now_1, now_1), (now_1, now_1)] ! 1))"
proof -
  let ?cs = "[(now_1, now_1), (now_1, now_1)]"
  have a: "New now_1 ([], None) Settings_5 = (Some generator_5, None)" by code_simp
  have b: "length ?cs < 2 ^ 62" by simp
  have c: "(0::nat) < 1" "1 < length ?cs" by simp_all
  have d: "snd (fst (NextID_calls generator_5 ?cs ! 0)) = None" by code_simp
  have e: "snd (fst (NextID_calls generator_5 ?cs ! 1)) = None" by code_simp
  show ?thesis using a b d e NextID_unique [OF a b c d e] by blast
qed

section \<open>The guard bit\<close>

text \<open>
  C6. Every value a successful call of \<open>NextID\<close> returns, on a generator made by \<open>New\<close>,
  has bit 63 clear: it is below \<open>2 ^ 63\<close>. (Fewer than \<open>2 ^ 62\<close> calls, as in C1.)
\<close>

theorem NextID_below_2_63:
  assumes "New now ia st = (Some sf, None)"
    and "length cs < 2 ^ 62"
    and "i < length cs"
    and "snd (fst (NextID_calls sf cs ! i)) = None"
  shows "\<not> bit (fst (fst (NextID_calls sf cs ! i))) 63 \<and> fst (fst (NextID_calls sf cs ! i)) < 2 ^ 63"
proof -
  let ?a = "snd (snd (NextID_calls sf cs ! i))"
  note a = post_state_facts [OF assms(1,2,3)]
  have ea: "sint (sf_elapsedTime ?a) < 2 ^ 39"
    using assms(4) a(3) by (simp add: toID_error split: if_splits)
  have "\<not> bit (fst (toID ?a)) 63" using a(1) ea a(2) by (rule toID_fields(5))
  then have nb: "\<not> bit (fst (fst (NextID_calls sf cs ! i))) 63" using a(3) by simp
  then have "fst (fst (NextID_calls sf cs ! i)) < 2 ^ 63" by (rule not_bit_63_less)
  with nb show ?thesis by (rule conjI)
qed

theorem NextID_below_2_63_witness:
  "New now_1 ([], None) Settings_5 = (Some generator_5, None) \<and>
   length [(now_1, now_1)] < 2 ^ 62 \<and>
   snd (fst (NextID_calls generator_5 [(now_1, now_1)] ! 0)) = None \<and>
   \<not> bit (fst (fst (NextID_calls generator_5 [(now_1, now_1)] ! 0))) 63 \<and>
   fst (fst (NextID_calls generator_5 [(now_1, now_1)] ! 0)) < 2 ^ 63"
proof -
  let ?cs = "[(now_1, now_1)]"
  have a: "New now_1 ([], None) Settings_5 = (Some generator_5, None)" by code_simp
  have b: "length ?cs < 2 ^ 62" by simp
  have c: "0 < length ?cs" by simp
  have d: "snd (fst (NextID_calls generator_5 ?cs ! 0)) = None" by code_simp
  show ?thesis using a b d NextID_below_2_63 [OF a b c d] by blast
qed

section \<open>The time limit\<close>

text \<open>
  C5. A call of \<open>NextID\<close>, on any state, fails with \<open>ErrOverTimeLimit\<close> exactly when the
  \<open>elapsedTime\<close> it leaves is at least \<open>2 ^ 39\<close>, and succeeds exactly when it is below.
  On a generator made by \<open>New\<close>, \<open>elapsedTime\<close> never decreases from one call to a later
  one, and once a call has failed every later call returns 0 and \<open>ErrOverTimeLimit\<close>.
  (Fewer than \<open>2 ^ 62\<close> calls, as in C1.)
\<close>

theorem OverTimeLimit_permanent:
  assumes "New now ia st = (Some sf, None)"
    and "length cs < 2 ^ 62"
    and "i < j" and "j < length cs"
  shows "(snd (fst (NextID t t' s)) = Some ErrOverTimeLimit \<longleftrightarrow>
            2 ^ 39 \<le> sint (sf_elapsedTime (snd (snd (NextID t t' s))))) \<and>
         (snd (fst (NextID t t' s)) = None \<longleftrightarrow>
            sint (sf_elapsedTime (snd (snd (NextID t t' s)))) < 2 ^ 39) \<and>
         sint (sf_elapsedTime (snd (snd (NextID_calls sf cs ! i))))
           \<le> sint (sf_elapsedTime (snd (snd (NextID_calls sf cs ! j)))) \<and>
         (snd (fst (NextID_calls sf cs ! i)) = Some ErrOverTimeLimit \<longrightarrow>
            fst (NextID_calls sf cs ! j) = (0, Some ErrOverTimeLimit))"
proof -
  let ?a = "snd (snd (NextID_calls sf cs ! i))" and ?b = "snd (snd (NextID_calls sf cs ! j))"
  have i: "i < length cs" using assms(3,4) by simp
  note a = post_state_facts [OF assms(1,2) i] and b = post_state_facts [OF assms(1,2,4)]
  have "before ?a ?b"
  proof -
    have "0 + length cs < 2 ^ 62" using assms(2) by simp
    with New_inv [OF assms(1)] show ?thesis using assms(3,4) by (rule NextID_calls_before)
  qed
  then have le: "sint (sf_elapsedTime ?a) \<le> sint (sf_elapsedTime ?b)"
    by (auto simp add: before_def)
  have "fst (NextID_calls sf cs ! j) = (0, Some ErrOverTimeLimit)"
    if "snd (fst (NextID_calls sf cs ! i)) = Some ErrOverTimeLimit"
  proof -
    have "2 ^ 39 \<le> sint (sf_elapsedTime ?a)"
      using that a(3) by (simp add: toID_error split: if_splits)
    then have "2 ^ 39 \<le> sint (sf_elapsedTime ?b)" using le by simp
    then have "toID ?b = (0, Some ErrOverTimeLimit)" by (simp add: toID_def word_sle_eq BitLenTime_def)
    then show ?thesis using b(3) by simp
  qed
  then show ?thesis using le by (simp add: NextID_result toID_error)
qed

theorem OverTimeLimit_permanent_witness:
  "New 0 ([], None) Settings_old = (Some generator_old, None) \<and>
   length ([(0, 0), (0, 0)] :: (Time \<times> Time) list) < 2 ^ 62 \<and>
   snd (fst (NextID_calls generator_old [(0, 0), (0, 0)] ! 0)) = Some ErrOverTimeLimit \<and>
   fst (NextID_calls generator_old [(0, 0), (0, 0)] ! 1) = (0, Some ErrOverTimeLimit)"
proof -
  let ?cs = "[(0, 0), (0, 0)] :: (Time \<times> Time) list"
  have a: "New 0 ([], None) Settings_old = (Some generator_old, None)" by code_simp
  have b: "length ?cs < 2 ^ 62" by simp
  have c: "(0::nat) < 1" "1 < length ?cs" by simp_all
  have d: "snd (fst (NextID_calls generator_old ?cs ! 0)) = Some ErrOverTimeLimit" by code_simp
  show ?thesis using a b d OverTimeLimit_permanent [OF a b c] by blast
qed

section \<open>Order of the decoded ticks and sequence numbers\<close>

text \<open>
  C2. Take two successful calls of \<open>NextID\<close> on a generator made by \<open>New\<close> with no
  successful call between them, and decode the two values returned. Either the tick
  increases and the sequence number of the second is 0, or the tick is the same and the
  sequence number is that of the first plus 1; so the pairs (tick, sequence) increase
  strictly in lexicographic order. (Fewer than \<open>2 ^ 62\<close> calls, as in C1.)
\<close>

theorem NextID_monotonic:
  assumes "New now ia st = (Some sf, None)"
    and "length cs < 2 ^ 62"
    and "i < j" and "j < length cs"
    and "snd (fst (NextID_calls sf cs ! i)) = None"
    and "snd (fst (NextID_calls sf cs ! j)) = None"
    and "\<forall>k. i < k \<and> k < j \<longrightarrow> snd (fst (NextID_calls sf cs ! k)) \<noteq> None"
  defines "id1 \<equiv> fst (fst (NextID_calls sf cs ! i))"
    and "id2 \<equiv> fst (fst (NextID_calls sf cs ! j))"
  shows "(elapsedTime id1 < elapsedTime id2 \<and> SequenceNumber id2 = 0 \<or>
          elapsedTime id1 = elapsedTime id2 \<and> SequenceNumber id2 = SequenceNumber id1 + 1) \<and>
         (elapsedTime id1 < elapsedTime id2 \<or>
          elapsedTime id1 = elapsedTime id2 \<and> SequenceNumber id1 < SequenceNumber id2)"
proof -
  let ?s = "\<lambda>k. snd (snd (NextID_calls sf cs ! k))"
  have len: "0 + length cs < 2 ^ 62" using assms(2) by simp
  note inv = New_inv [OF assms(1)]
  have i: "i < length cs" using assms(3,4) by simp
  note a = post_state_facts [OF assms(1,2) i] and b = post_state_facts [OF assms(1,2,4)]
  have ea: "sint (sf_elapsedTime (?s i)) < 2 ^ 39"
    using assms(5) a(3) by (simp add: toID_error split: if_splits)
  have eb: "sint (sf_elapsedTime (?s j)) < 2 ^ 39"
    using assms(6) b(3) by (simp add: toID_error split: if_splits)
  have j: "j = Suc i"
  proof (rule ccontr)
    assume "j \<noteq> Suc i"
    then have k: "i < Suc i" "Suc i < j" using assms(3) by simp_all
    then have "snd (fst (NextID_calls sf cs ! Suc i)) \<noteq> None" using assms(7) by blast
    moreover have "Suc i < length cs" using k assms(4) by simp
    ultimately have "2 ^ 39 \<le> sint (sf_elapsedTime (?s (Suc i)))"
      using post_state_facts(3) [OF assms(1,2), of "Suc i"] by (simp add: toID_error split: if_splits)
    moreover have "before (?s (Suc i)) (?s j)"
      using inv len k(2) assms(4) by (rule NextID_calls_before)
    ultimately show False using eb by (auto simp add: before_def)
  qed
  have "advanced (?s i) (?s (Suc i))"
    using inv len assms(4) unfolding j by (rule NextID_calls_advanced)
  then have adv: "advanced (?s i) (?s j)" by (simp only: j)
  have id1: "elapsedTime id1 = sf_elapsedTime (?s i)" "SequenceNumber id1 = ucast (sf_sequence (?s i))"
    unfolding id1_def a(3) using toID_fields(2,3) [OF a(1) ea a(2)] by simp_all
  have id2: "elapsedTime id2 = sf_elapsedTime (?s j)" "SequenceNumber id2 = ucast (sf_sequence (?s j))"
    unfolding id2_def b(3) using toID_fields(2,3) [OF b(1) eb b(2)] by simp_all
  from adv consider
      (tick) "sint (sf_elapsedTime (?s i)) < sint (sf_elapsedTime (?s j))" "sf_sequence (?s j) = 0"
    | (same) "sf_elapsedTime (?s j) = sf_elapsedTime (?s i)"
        "unat (sf_sequence (?s j)) = unat (sf_sequence (?s i)) + 1"
    by (auto simp add: advanced_def)
  then show ?thesis
  proof cases
    case tick
    have "sf_elapsedTime (?s i) < sf_elapsedTime (?s j)"
      using a(1) tick(1) by (rule word_less_of_sint)
    then show ?thesis using tick(2) by (simp add: id1 id2)
  next
    case same
    then show ?thesis using ucast_16_64_succ [OF same(2)] by (simp add: id1 id2)
  qed
qed

theorem NextID_monotonic_witness:
  "New now_1 ([], None) Settings_5 = (Some generator_5, None) \<and>
   length [(now_1, now_1), (now_1, now_1)] < 2 ^ 62 \<and>
   snd (fst (NextID_calls generator_5 [(now_1, now_1), (now_1, now_1)] ! 0)) = None \<and>
   snd (fst (NextID_calls generator_5 [(now_1, now_1), (now_1, now_1)] ! 1)) = None \<and>
   (elapsedTime (fst (fst (NextID_calls generator_5 [(now_1, now_1), (now_1, now_1)] ! 0)))
      < elapsedTime (fst (fst (NextID_calls generator_5 [(now_1, now_1), (now_1, now_1)] ! 1))) \<or>
    elapsedTime (fst (fst (NextID_calls generator_5 [(now_1, now_1), (now_1, now_1)] ! 0)))
      = elapsedTime (fst (fst (NextID_calls generator_5 [(now_1, now_1), (now_1, now_1)] ! 1))) \<and>
    SequenceNumber (fst (fst (NextID_calls generator_5 [(now_1, now_1), (now_1, now_1)] ! 0)))
      < SequenceNumber (fst (fst (NextID_calls generator_5 [(now_1, now_1), (now_1, now_1)] ! 1))))"
proof -
  let ?cs = "[(now_1, now_1), (now_1, now_1)]"
  have a: "New now_1 ([], None) Settings_5 = (Some generator_5, None)" by code_simp
  have b: "length ?cs < 2 ^ 62" by simp
  have c: "(0::nat) < 1" "1 < length ?cs" by simp_all
  have d: "snd (fst (NextID_calls generator_5 ?cs ! 0)) = None" by code_simp
  have e: "snd (fst (NextID_calls generator_5 ?cs ! 1)) = None" by code_simp
  have f: "\<forall>k. 0 < k \<and> k < 1 \<longrightarrow> snd (fst (NextID_calls generator_5 ?cs ! k)) \<noteq> None"
    by simp
  show ?thesis using a b d e NextID_monotonic [OF a b c d e f] by blast
qed

section \<open>Decomposition\<close>

text \<open>
  C3, as amended. \<open>Decompose\<close> is defined on every 64-bit value and returns the five
  parts named below. Encoding its time, sequence and machine-id parts again gives the value
  itself, bit 63 included, since the time part is the value shifted right by 24 and is not
  masked to 39 bits. The result is the value with bit 63 cleared when the value is below
  \<open>2 ^ 63\<close>.
\<close>

theorem Decompose_encode:
  "Decompose v ''id'' = Some v \<and>
   Decompose v ''msb'' = Some (drop_bit 63 v) \<and>
   Decompose v ''time'' = Some (elapsedTime v) \<and>
   Decompose v ''sequence'' = Some (SequenceNumber v) \<and>
   Decompose v ''machine-id'' = Some (MachineID v) \<and>
   encode (the (Decompose v ''time'')) (the (Decompose v ''sequence''))
     (the (Decompose v ''machine-id'')) = v \<and>
   (v < 2 ^ 63 \<longrightarrow>
      encode (the (Decompose v ''time'')) (the (Decompose v ''sequence''))
        (the (Decompose v ''machine-id'')) = v AND (push_bit 63 1 - 1))"
proof -
  have d: "Decompose v ''id'' = Some v" "Decompose v ''msb'' = Some (drop_bit 63 v)"
    "Decompose v ''time'' = Some (elapsedTime v)"
    "Decompose v ''sequence'' = Some (SequenceNumber v)"
    "Decompose v ''machine-id'' = Some (MachineID v)"
    by (simp_all add: Decompose_def Let_def)
  have "v AND (push_bit 63 1 - 1) = v" if "v < 2 ^ 63"
    unfolding push_bit_1_minus_1 using that by (rule less_mask_eq)
  then show ?thesis by (simp add: d encode_decompose)
qed

theorem Decompose_encode_witness:
  "(16777221 :: uint64) < 2 ^ 63 \<and>
   encode (the (Decompose 16777221 ''time'')) (the (Decompose 16777221 ''sequence''))
     (the (Decompose 16777221 ''machine-id'')) = 16777221 AND (push_bit 63 1 - 1)"
proof -
  have "(16777221 :: uint64) < 2 ^ 63" by simp
  then show ?thesis using Decompose_encode [of 16777221] by blast
qed

text \<open>
  The claim as stated, that the re-encoded parts equal the value with bit 63 cleared, fails
  at \<open>2 ^ 63 + 1\<close>.
\<close>

theorem Decompose_encode_counterexample:
  "\<not> (encode (the (Decompose 9223372036854775809 ''time''))
         (the (Decompose 9223372036854775809 ''sequence''))
         (the (Decompose 9223372036854775809 ''machine-id''))
       = 9223372036854775809 AND (push_bit 63 1 - 1))"
  by code_simp

section \<open>The constructor that drops the error\<close>

text \<open>
  C9. \<open>NewSnowflake\<close> returns the first component of what \<open>New\<close> returns: the generator
  when \<open>New\<close> returns no error, and nil whenever \<open>New\<close> returns an error.
\<close>

theorem NewSnowflake_New:
  "NewSnowflake now ia st = fst (New now ia st) \<and>
   (snd (New now ia st) = None \<longrightarrow>
      (\<exists>sf. New now ia st = (Some sf, None) \<and> NewSnowflake now ia st = Some sf)) \<and>
   (snd (New now ia st) \<noteq> None \<longrightarrow> NewSnowflake now ia st = None)"
  by (auto simp add: NewSnowflake_def New_def Let_def split: option.splits prod.splits)

theorem NewSnowflake_New_witness:
  "snd (New now_1 ([], None) Settings_5) = None \<and>
   NewSnowflake now_1 ([], None) Settings_5 = Some generator_5 \<and>
   snd (New 0 ([], None) (Settings_5\<lparr>st_StartTime := 1\<rparr>)) \<noteq> None \<and>
   NewSnowflake 0 ([], None) (Settings_5\<lparr>st_StartTime := 1\<rparr>) = None"
proof -
  have a: "New now_1 ([], None) Settings_5 = (Some generator_5, None)" by code_simp
  have b: "snd (New 0 ([], None) (Settings_5\<lparr>st_StartTime := 1\<rparr>)) \<noteq> None" by code_simp
  show ?thesis
    using a b NewSnowflake_New [of now_1 "([], None)" Settings_5]
      NewSnowflake_New [of 0 "([], None)" "Settings_5\<lparr>st_StartTime := 1\<rparr>"]
    by auto
qed

section \<open>A failing call changes the state\<close>

text \<open>
  C10. When a call of \<open>NextID\<close> returns an error, on any state, the error is
  \<open>ErrOverTimeLimit\<close> and the value is 0; the check is made on the state the call leaves,
  which differs from the state before in \<open>elapsedTime\<close> or in \<open>sequence\<close>; and the call
  has slept exactly when the sequence wrapped, whether or not it then fails.
\<close>

theorem NextID_error_mutates:
  assumes "NextID now now' sf = ((v, Some err), d, sf')"
  shows "err = ErrOverTimeLimit \<and> v = 0 \<and> toID sf' = (0, Some ErrOverTimeLimit) \<and>
         2 ^ 39 \<le> sint (sf_elapsedTime sf') \<and>
         sf' \<noteq> sf \<and>
         (sf_elapsedTime sf' \<noteq> sf_elapsedTime sf \<or> sf_sequence sf' \<noteq> sf_sequence sf) \<and>
         (d \<noteq> None \<longleftrightarrow>
            \<not> sf_elapsedTime sf <s currentElapsedTime now (sf_startTime sf) \<and>
            (sf_sequence sf + 1) AND (push_bit BitLenSequence 1 - 1) = 0)"
proof -
  note c = NextID_cases [OF assms]
  have t: "toID sf' = (v, Some err)" using c by simp
  then have e: "err = ErrOverTimeLimit" "v = 0" "2 ^ 39 \<le> sint (sf_elapsedTime sf')"
    by (auto simp add: toID_def word_sle_eq BitLenTime_def split: if_splits)
  have ch: "sf_elapsedTime sf' \<noteq> sf_elapsedTime sf \<or> sf_sequence sf' \<noteq> sf_sequence sf"
    using c seq_step_neq [of "sf_sequence sf"] by (auto simp add: word_sless_alt)
  then have "sf' \<noteq> sf" by auto
  moreover have "d \<noteq> None \<longleftrightarrow>
      \<not> sf_elapsedTime sf <s currentElapsedTime now (sf_startTime sf) \<and>
      (sf_sequence sf + 1) AND (push_bit BitLenSequence 1 - 1) = 0"
    using c by auto
  ultimately show ?thesis using t e ch by simp
qed

theorem NextID_error_mutates_witness:
  "NextID 0 0 generator_old =
     ((0, Some ErrOverTimeLimit), None, generator_old\<lparr>sf_elapsedTime := 800000000000, sf_sequence := 0\<rparr>) \<and>
   generator_old\<lparr>sf_elapsedTime := 800000000000, sf_sequence := 0\<rparr> \<noteq> generator_old"
proof -
  have a: "NextID 0 0 generator_old =
     ((0, Some ErrOverTimeLimit), None, generator_old\<lparr>sf_elapsedTime := 800000000000, sf_sequence := 0\<rparr>)"
    by code_simp
  show ?thesis using a NextID_error_mutates [OF a] by blast
qed

section \<open>The sleep when the sequence wraps\<close>

lemma smod_unit_bounds:
  fixes x :: int
  shows "- 10000000 < x smod 10000000" "x smod 10000000 < 10000000"
    "0 \<le> x \<Longrightarrow> 0 \<le> x smod 10000000"
proof -
  have p: "0 \<le> x mod 10000000" "x mod 10000000 < 10000000"
    and q: "0 \<le> (- x) mod 10000000" "(- x) mod 10000000 < 10000000"
    by simp_all
  consider "0 < x" | "x = 0" | "x < 0" by linarith
  then have "- 10000000 < x smod 10000000 \<and> x smod 10000000 < 10000000 \<and>
    (0 \<le> x \<longrightarrow> 0 \<le> x smod 10000000)"
  proof cases
    case 1
    then have "x smod 10000000 = x mod 10000000" by (simp add: signed_modulo_int_def)
    then show ?thesis using p by simp
  next
    case 2
    then show ?thesis by (simp add: signed_modulo_int_def)
  next
    case 3
    then have "x smod 10000000 = - ((- x) mod 10000000)" by (simp add: signed_modulo_int_def)
    then show ?thesis using q 3 by simp
  qed
  then show "- 10000000 < x smod 10000000" "x smod 10000000 < 10000000"
    "0 \<le> x \<Longrightarrow> 0 \<le> x smod 10000000"
    by simp_all
qed

lemma sint_sleepTime:
  assumes "1 \<le> sint overtime" "sint overtime \<le> 2 ^ 39"
  shows "sint (sleepTime now overtime) =
           sint overtime * 10000000 - sint (UnixNano now) smod 10000000"
proof -
  let ?r = "sint (UnixNano now) smod 10000000"
  have r: "- 10000000 < ?r" "?r < 10000000" by (rule smod_unit_bounds)+
  have p: "10000000 \<le> sint overtime * 10000000" "sint overtime * 10000000 \<le> 2 ^ 39 * 10000000"
    using assms by simp_all
  have "sint (overtime * SnowflakeTimeUnit) = signed_take_bit 63 (sint overtime * 10000000)"
    by (simp add: sint_word_ariths SnowflakeTimeUnit_def)
  also have "\<dots> = sint overtime * 10000000"
    using p by (intro signed_take_bit_int_eq_self) simp_all
  finally have a: "sint (overtime * SnowflakeTimeUnit) = sint overtime * 10000000" .
  have b: "sint (i64_rem (UnixNano now) SnowflakeTimeUnit) = ?r"
    unfolding i64_rem_def using r by (simp add: SnowflakeTimeUnit_def sint_i64_of_int)
  show ?thesis
    unfolding sleepTime_def using a b p r by (simp add: sint_sub_i64)
qed

lemma NextID_sleep_step:
  assumes r: "NextID now now' sf = (r, Some d, sf')" and w: "generator_inv n sf" and n: "n < 2 ^ 62"
  defines "overtime \<equiv> sf_elapsedTime sf' - currentElapsedTime now (sf_startTime sf)"
  shows "d = sleepTime now' overtime" "1 \<le> sint overtime"
proof -
  let ?c = "currentElapsedTime now (sf_startTime sf)"
  have st: "- (2 ^ 40) < sint (sf_startTime sf)" "sint (sf_startTime sf) < 2 ^ 40"
    and e: "0 \<le> sint (sf_elapsedTime sf)" "sint (sf_elapsedTime sf) \<le> 2 ^ 41 + int n"
    using w by (simp_all add: generator_inv_def)
  have c: "sint ?c = sint (toSnowflakeTime now) - sint (sf_startTime sf)"
    using st by (rule sint_currentElapsedTime)
  have cb: "- (2 ^ 41) < sint ?c" "sint ?c < 2 ^ 41"
    using c st sint_toSnowflakeTime [of now] by simp_all
  have n': "int n < 2 ^ 62" using n by (simp flip: of_nat_less_iff)
  have e1: "sint (sf_elapsedTime sf + 1) = sint (sf_elapsedTime sf) + 1"
    using e n' by (intro sint_succ_i64) simp
  from NextID_cases [OF r]
  have wrap: "\<not> sf_elapsedTime sf <s ?c" "sf_elapsedTime sf' = sf_elapsedTime sf + 1"
    "d = sleepTime now' (sf_elapsedTime sf + 1 - ?c)"
    by auto
  show "d = sleepTime now' overtime" using wrap by (simp add: overtime_def)
  have "sint overtime = sint (sf_elapsedTime sf) + 1 - sint ?c"
    unfolding overtime_def wrap(2) using e n' cb e1 by (simp add: sint_sub_i64)
  then show "1 \<le> sint overtime" using wrap(1) by (simp add: word_sless_alt)
qed

lemma NextID_calls_pre_state:
  assumes "generator_inv 0 sf" "length cs < 2 ^ 62" "i < length cs"
  shows "\<exists>s. generator_inv i s \<and> sf_startTime s = sf_startTime sf \<and>
             NextID_calls sf cs ! i = NextID (fst (cs ! i)) (snd (cs ! i)) s"
  using assms(3)
proof (induction i)
  case 0
  then show ?case using assms(1) by (auto simp add: NextID_calls_nth_0)
next
  case (Suc i)
  then obtain s where s: "generator_inv i s" "sf_startTime s = sf_startTime sf"
    "NextID_calls sf cs ! i = NextID (fst (cs ! i)) (snd (cs ! i)) s"
    by auto
  let ?s' = "snd (snd (NextID_calls sf cs ! i))"
  have "generator_inv (0 + Suc i) ?s'"
    using assms(1,2) Suc.prems by (intro NextID_calls_inv) simp_all
  moreover have "sf_startTime ?s' = sf_startTime sf"
    using NextID_cases [of "fst (cs ! i)" "snd (cs ! i)" s] s(2,3)
    by (cases "NextID (fst (cs ! i)) (snd (cs ! i)) s") simp
  ultimately show ?case using Suc.prems by (auto simp add: NextID_calls_nth_Suc)
qed

text \<open>
  C4, as amended. When a call of \<open>NextID\<close> on a generator made by \<open>New\<close> sleeps, the
  sequence has wrapped, \<open>overtime = elapsedTime - current\<close> is at least 1 and the argument
  of \<open>time.Sleep\<close> is \<open>sleepTime overtime\<close>. For \<open>overtime\<close> up to \<open>2 ^ 39\<close> (the
  product does not overflow) the duration lies strictly between \<open>overtime - 1\<close> and
  \<open>overtime + 1\<close> tick units, and is at most \<open>overtime\<close> tick units when the clock reading
  is not before the Unix epoch. So a call with \<open>overtime = 1\<close> blocks for at most one tick
  unit, and for a whole one when the reading is a multiple of the unit; a call made after
  the clock fell behind \<open>elapsedTime\<close> blocks for more. (Fewer than \<open>2 ^ 62\<close> calls, as in
  C1.)
\<close>

theorem NextID_sleep_bound:
  assumes "New now ia st = (Some sf, None)"
    and "length cs < 2 ^ 62"
    and "i < length cs"
    and "fst (snd (NextID_calls sf cs ! i)) = Some d"
  defines "overtime \<equiv> sf_elapsedTime (snd (snd (NextID_calls sf cs ! i)))
                        - currentElapsedTime (fst (cs ! i)) (sf_startTime sf)"
  shows "d = sleepTime (snd (cs ! i)) overtime \<and> 1 \<le> sint overtime \<and>
         (sint overtime \<le> 2 ^ 39 \<longrightarrow>
            (sint overtime - 1) * 10000000 < sint d \<and> sint d < (sint overtime + 1) * 10000000) \<and>
         (sint overtime \<le> 2 ^ 39 \<and> 0 \<le> sint (UnixNano (snd (cs ! i))) \<longrightarrow>
            sint d \<le> sint overtime * 10000000)"
proof -
  obtain s where s: "generator_inv i s" "sf_startTime s = sf_startTime sf"
    "NextID_calls sf cs ! i = NextID (fst (cs ! i)) (snd (cs ! i)) s"
    using NextID_calls_pre_state [OF New_inv [OF assms(1)] assms(2,3)] by auto
  obtain r sf' where r: "NextID (fst (cs ! i)) (snd (cs ! i)) s = (r, Some d, sf')"
    using assms(4) s(3) by (cases "NextID (fst (cs ! i)) (snd (cs ! i)) s") auto
  have i: "i < 2 ^ 62" using assms(2,3) by simp
  have ov: "overtime = sf_elapsedTime sf' - currentElapsedTime (fst (cs ! i)) (sf_startTime s)"
    using r s(2,3) by (simp add: overtime_def)
  note step = NextID_sleep_step [OF r s(1) i, folded ov]
  let ?r = "sint (UnixNano (snd (cs ! i))) smod 10000000"
  have "sint d = sint overtime * 10000000 - ?r" if "sint overtime \<le> 2 ^ 39"
    using step that by (simp add: sint_sleepTime)
  then show ?thesis
    using step smod_unit_bounds [of "sint (UnixNano (snd (cs ! i)))"]
    by (auto simp add: algebra_simps)
qed

theorem NextID_sleep_bound_witness:
  "New Date_2014_9_1 ([], None) Settings_5 = (Some generator_5, None) \<and>
   length [(Date_2014_9_1, Date_2014_9_1)] < 2 ^ 62 \<and>
   fst (snd (NextID_calls generator_5 [(Date_2014_9_1, Date_2014_9_1)] ! 0)) = Some 10000000 \<and>
   sint (sf_elapsedTime (snd (snd (NextID_calls generator_5 [(Date_2014_9_1, Date_2014_9_1)] ! 0)))
           - currentElapsedTime (fst ([(Date_2014_9_1, Date_2014_9_1)] ! 0))
               (sf_startTime generator_5)) = 1 \<and>
   0 \<le> sint (UnixNano (snd ([(Date_2014_9_1, Date_2014_9_1)] ! 0))) \<and>
   0 < sint (10000000 :: Duration) \<and> sint (10000000 :: Duration) \<le> 1 * 10000000"
proof -
  let ?cs = "[(Date_2014_9_1, Date_2014_9_1)]"
  let ?ov = "sf_elapsedTime (snd (snd (NextID_calls generator_5 ?cs ! 0)))
               - currentElapsedTime (fst (?cs ! 0)) (sf_startTime generator_5)"
  have a: "New Date_2014_9_1 ([], None) Settings_5 = (Some generator_5, None)" by code_simp
  have b: "length ?cs < 2 ^ 62" by simp
  have c: "0 < length ?cs" by simp
  have d: "fst (snd (NextID_calls generator_5 ?cs ! 0)) = Some 10000000" by code_simp
  have e: "sint ?ov = 1" by code_simp
  have f: "0 \<le> sint (UnixNano (snd (?cs ! 0)))" by code_simp
  have g: "sint ?ov \<le> 2 ^ 39" by (simp only: e) simp
  show ?thesis
    using a b d e f g NextID_sleep_bound [OF a b c d] by simp
qed

text \<open>
  The claim as stated, that the sleep is strictly shorter than one tick unit, fails on the
  first call of a generator whose epoch is the clock reading (a whole tick unit), and when
  the clock has gone back five ticks since the generator was made (six tick units).
\<close>

theorem NextID_sleep_counterexample:
  "New Date_2014_9_1 ([], None) Settings_5 = (Some generator_5, None) \<and>
   fst (snd (NextID Date_2014_9_1 Date_2014_9_1 generator_5)) = Some 10000000 \<and>
   fst (snd (NextID (Date_2014_9_1 - 50000000) (Date_2014_9_1 - 50000000) generator_5))
     = Some 60000000 \<and>
   \<not> sint (10000000 :: Duration) < sint SnowflakeTimeUnit \<and>
   \<not> sint (60000000 :: Duration) < sint SnowflakeTimeUnit"
  by code_simp

section \<open>The default machine identifier and the address blocks\<close>

lemma To4_cases: "To4 ip = [] \<or> (\<exists>a b c d. To4 ip = [a, b, c, d])"
proof -
  have four: "\<exists>a b c d. xs = [a, b, c, d]" if "length xs = 4" for xs :: IP
    using that by (auto simp add: length_Suc_conv numeral_eq_Suc)
  show ?thesis
    unfolding To4_def by (auto intro: four)
qed

lemma byte_range: "0 \<le> uint (b :: byte) \<and> uint b < 256"
  using uint_lt2p [of b] by simp

lemma pair_256:
  fixes A B x y :: int
  assumes "0 \<le> y" "y < 256" "0 \<le> B" "B < 256"
  shows "A * 256 + B = x * 256 + y \<longleftrightarrow> A = x \<and> B = y"
proof
  assume eq: "A * 256 + B = x * 256 + y"
  have "(A * 256 + B) div 256 = A" "(x * 256 + y) div 256 = x" using assms by simp_all
  then have "A = x" using eq by simp
  then show "A = x \<and> B = y" using eq by simp
qed simp

lemma pair_16:
  fixes A q x y :: int
  assumes "0 \<le> y" "y < 16" "0 \<le> q" "q < 16"
  shows "A * 16 + q = x * 16 + y \<longleftrightarrow> A = x \<and> q = y"
proof
  assume eq: "A * 16 + q = x * 16 + y"
  have "(A * 16 + q) div 16 = A" "(x * 16 + y) div 16 = x" using assms by simp_all
  then have "A = x" using eq by simp
  then show "A = x \<and> q = y" using eq by simp
qed simp

lemma div_16_eq_1: "(B::int) div 16 = 1 \<longleftrightarrow> 16 \<le> B \<and> B < 32"
proof
  assume "B div 16 = 1"
  then have "B = 16 + B mod 16" using div_mult_mod_eq [of B 16] by simp
  moreover have "0 \<le> B mod 16" "B mod 16 < 16" by simp_all
  ultimately show "16 \<le> B \<and> B < 32" by linarith
next
  assume b: "16 \<le> B \<and> B < 32"
  then have "0 \<le> B - 16" "B - 16 < 16" by simp_all
  then have "(B - 16) div 16 = 0" by (rule div_pos_pos_trivial)
  moreover have "B = 1 * 16 + (B - 16)" by simp
  ultimately show "B div 16 = 1" by (metis add.right_neutral div_mult_self3 zero_neq_numeral)
qed

lemma block_8:
  assumes "0 \<le> b" "b < 256" "0 \<le> c" "c < 256" "0 \<le> d" "d < (256::int)"
  shows "(a * 2 ^ 24 + b * 2 ^ 16 + c * 2 ^ 8 + d) div 2 ^ 24 = a"
proof -
  have "0 \<le> b * 2 ^ 16 + c * 2 ^ 8 + d" "b * 2 ^ 16 + c * 2 ^ 8 + d < 2 ^ 24" using assms by simp_all
  then have "(b * 2 ^ 16 + c * 2 ^ 8 + d) div 2 ^ 24 = 0" by (rule div_pos_pos_trivial)
  moreover have "a * 2 ^ 24 + b * 2 ^ 16 + c * 2 ^ 8 + d = a * 2 ^ 24 + (b * 2 ^ 16 + c * 2 ^ 8 + d)"
    by simp
  ultimately show ?thesis by (simp only: div_mult_self3) simp
qed

lemma block_16:
  assumes "0 \<le> c" "c < 256" "0 \<le> d" "d < (256::int)"
  shows "(a * 2 ^ 24 + b * 2 ^ 16 + c * 2 ^ 8 + d) div 2 ^ 16 = a * 256 + b"
proof -
  have "0 \<le> c * 2 ^ 8 + d" "c * 2 ^ 8 + d < 2 ^ 16" using assms by simp_all
  then have "(c * 2 ^ 8 + d) div 2 ^ 16 = 0" by (rule div_pos_pos_trivial)
  moreover have "a * 2 ^ 24 + b * 2 ^ 16 + c * 2 ^ 8 + d = (a * 256 + b) * 2 ^ 16 + (c * 2 ^ 8 + d)"
    by simp
  ultimately show ?thesis by (simp only: div_mult_self3) simp
qed

lemma block_12:
  assumes "0 \<le> c" "c < 256" "0 \<le> d" "d < (256::int)"
  shows "(a * 2 ^ 24 + b * 2 ^ 16 + c * 2 ^ 8 + d) div 2 ^ 20 = a * 16 + b div 16"
proof -
  define k r where "k = b div 16" and "r = b mod 16"
  have b: "b = k * 16 + r" and r: "0 \<le> r" "r < 16" by (simp_all add: k_def r_def)
  have "0 \<le> r * 2 ^ 16 + c * 2 ^ 8 + d" "r * 2 ^ 16 + c * 2 ^ 8 + d < 2 ^ 20"
    using assms r by simp_all
  then have "(r * 2 ^ 16 + c * 2 ^ 8 + d) div 2 ^ 20 = 0" by (rule div_pos_pos_trivial)
  moreover have "a * 2 ^ 24 + b * 2 ^ 16 + c * 2 ^ 8 + d
      = (a * 16 + k) * 2 ^ 20 + (r * 2 ^ 16 + c * 2 ^ 8 + d)"
    unfolding b by simp
  ultimately have "(a * 2 ^ 24 + b * 2 ^ 16 + c * 2 ^ 8 + d) div 2 ^ 20 = a * 16 + k"
    by (simp only: div_mult_self3) simp
  then show ?thesis by (simp only: k_def)
qed

lemma isPrivateIPv4_blocks:
  "isPrivateIPv4 [a, b, c, d] \<longleftrightarrow> private_or_link_local (ipv4_value [a, b, c, d])"
proof -
  note rb = byte_range [of b, THEN conjunct1] byte_range [of b, THEN conjunct2]
  note rc = byte_range [of c, THEN conjunct1] byte_range [of c, THEN conjunct2]
  note rd = byte_range [of d, THEN conjunct1] byte_range [of d, THEN conjunct2]
  have v: "ipv4_value [a, b, c, d] = uint a * 2 ^ 24 + uint b * 2 ^ 16 + uint c * 2 ^ 8 + uint d"
    by (simp add: ipv4_value_def)
  have p8: "in_block (ipv4_value [a, b, c, d]) (10 * 2 ^ 24) 8 \<longleftrightarrow> uint a = 10"
    unfolding in_block_def v using block_8 [OF rb rc rd, of "uint a"] by simp
  have p16: "in_block (ipv4_value [a, b, c, d]) (x * 2 ^ 24 + y * 2 ^ 16) 16
      \<longleftrightarrow> uint a * 256 + uint b = x * 256 + y" for x y
    unfolding in_block_def v using block_16 [OF rc rd, of "uint a" "uint b"] block_16 [of 0 0 x y]
    by (simp add: mult.commute)
  have split: "uint a * 256 + uint b = x * 256 + y \<longleftrightarrow> uint a = x \<and> uint b = y"
    if "0 \<le> y" "y < 256" for x y
    using that rb by (rule pair_256)
  have p12: "in_block (ipv4_value [a, b, c, d]) (172 * 2 ^ 24 + 16 * 2 ^ 16) 12
      \<longleftrightarrow> uint a * 16 + uint b div 16 = 172 * 16 + 1"
    unfolding in_block_def v using block_12 [OF rc rd, of "uint a" "uint b"] block_12 [of 0 0 172 16]
    by simp
  have split12: "uint a * 16 + uint b div 16 = 172 * 16 + 1
      \<longleftrightarrow> uint a = 172 \<and> 16 \<le> uint b \<and> uint b < 32"
  proof -
    have "0 \<le> uint b div 16" "uint b div 16 < 16"
      using rb by (simp_all add: pos_imp_zdiv_nonneg_iff div_less_iff_less_mult)
    then have "uint a * 16 + uint b div 16 = 172 * 16 + 1
        \<longleftrightarrow> uint a = 172 \<and> uint b div 16 = 1"
      by (intro pair_16) simp_all
    then show ?thesis by (simp only: div_16_eq_1)
  qed
  have "isPrivateIPv4 [a, b, c, d] \<longleftrightarrow>
      uint a = 10 \<or> uint a = 172 \<and> 16 \<le> uint b \<and> uint b < 32 \<or>
      uint a = 192 \<and> uint b = 168 \<or> uint a = 169 \<and> uint b = 254"
    by (simp add: word_uint_eq_iff word_le_def word_less_def)
  also have "\<dots> \<longleftrightarrow> private_or_link_local (ipv4_value [a, b, c, d])"
    unfolding private_or_link_local_def p12 split12
    using p8 p16 [of 192 168] p16 [of 169 254] split [of 168 192] split [of 254 169]
    by simp
  finally show ?thesis .
qed

lemma qualifying_IPNet:
  "qualifying (IPNet ip m) \<longleftrightarrow> \<not> IsLoopback ip \<and> isPrivateIPv4 (To4 ip)"
proof -
  from To4_cases [of ip] consider "To4 ip = []" | a b c d where "To4 ip = [a, b, c, d]"
    by blast
  then show ?thesis
  proof cases
    case 1
    then show ?thesis by (simp add: qualifying_def)
  next
    case 2
    then show ?thesis
      using isPrivateIPv4_blocks [of a b c d]
      by (simp add: qualifying_def del: isPrivateIPv4.simps)
  qed
qed

lemma privateIPv4_loop_find:
  "privateIPv4_loop as =
     (case find qualifying as of
        None \<Rightarrow> ([], Some ErrNoPrivateAddress)
      | Some a \<Rightarrow> (To4 (addr_ip a), None))"
proof (induction as rule: privateIPv4_loop.induct)
  case 1
  then show ?case by simp
next
  case (2 uu as)
  then show ?case by (simp add: qualifying_def)
next
  case (3 ip uv as)
  then show ?case by (simp add: qualifying_IPNet Let_def)
qed

lemma lower16_mod:
  assumes "0 \<le> c" "c < 256" "0 \<le> d" "d < (256::int)"
  shows "(a * 2 ^ 24 + b * 2 ^ 16 + c * 2 ^ 8 + d) mod 2 ^ 16 = c * 256 + d"
proof -
  have "0 \<le> c * 256 + d" "c * 256 + d < 2 ^ 16" using assms by simp_all
  then have "(c * 256 + d) mod 2 ^ 16 = c * 256 + d" by (rule mod_pos_pos_trivial)
  moreover have "a * 2 ^ 24 + b * 2 ^ 16 + c * 2 ^ 8 + d = (a * 256 + b) * 2 ^ 16 + (c * 256 + d)"
    by simp
  ultimately show ?thesis by (simp only: mod_mult_self3)
qed

lemma lower16_of_IPNet:
  assumes "To4 ip = [a, b, c, d]"
  shows "lower16_of (IPNet ip m) = push_bit 8 (ucast (To4 ip ! 2)) + ucast (To4 ip ! 3)"
    and "unat (lower16_of (IPNet ip m)) = 256 * unat c + unat d"
proof -
  note rc = byte_range [of c, THEN conjunct1] byte_range [of c, THEN conjunct2]
  note rd = byte_range [of d, THEN conjunct1] byte_range [of d, THEN conjunct2]
  have v: "ipv4_value (To4 ip) mod 2 ^ 16 = uint c * 256 + uint d"
    unfolding assms ipv4_value_def using lower16_mod [OF rc rd, of "uint a" "uint b"]
    by simp
  show "lower16_of (IPNet ip m) = push_bit 8 (ucast (To4 ip ! 2)) + ucast (To4 ip ! 3)"
    unfolding lower16_of_def Addr.case v by (simp add: assms push_bit_eq_mult)
  have lt: "0 \<le> uint c * 256 + uint d" "uint c * 256 + uint d < 2 ^ 16" using rc rd by simp_all
  have "uint (word_of_int (uint c * 256 + uint d) :: 16 word)
      = take_bit LENGTH(16) (uint c * 256 + uint d)"
    by (rule uint_word_of_int_eq)
  also have "\<dots> = uint c * 256 + uint d" using lt by (simp add: take_bit_int_eq_self)
  finally have "uint (lower16_of (IPNet ip m)) = uint c * 256 + uint d"
    unfolding lower16_of_def Addr.case v .
  then have "int (unat (lower16_of (IPNet ip m))) = int (256 * unat c + unat d)"
    by simp
  then show "unat (lower16_of (IPNet ip m)) = 256 * unat c + unat d"
    by (simp only: of_nat_eq_iff)
qed

lemma lower16BitPrivateIP_find:
  "lower16BitPrivateIP (as, None) =
     (case find qualifying as of
        None \<Rightarrow> (0, Some ErrNoPrivateAddress)
      | Some a \<Rightarrow> (lower16_of a, None))"
proof (cases "find qualifying as")
  case None
  then show ?thesis by (simp add: lower16BitPrivateIP_def privateIPv4_def privateIPv4_loop_find)
next
  case (Some a)
  then have q: "qualifying a" by (auto simp add: find_Some_iff)
  then obtain ip m where a: "a = IPNet ip m" by (cases a) (simp_all add: qualifying_def)
  then have "To4 ip \<noteq> []" using q by (simp add: qualifying_def)
  then obtain o1 o2 o3 o4 where "To4 ip = [o1, o2, o3, o4]" using To4_cases [of ip] by auto
  then show ?thesis
    using Some a lower16_of_IPNet(1) [of ip o1 o2 o3 o4 m]
    by (simp add: lower16BitPrivateIP_def privateIPv4_def privateIPv4_loop_find)
qed

lemma lower16BitPrivateIP_error: "lower16BitPrivateIP (as, Some e) = (0, Some e)"
  by (simp add: lower16BitPrivateIP_def privateIPv4_def)

lemma snd_lower16BitPrivateIP:
  "snd (lower16BitPrivateIP ia) = Some ErrStartTimeAhead \<longleftrightarrow> snd ia = Some ErrStartTimeAhead"
proof (cases ia)
  case (Pair as err)
  show ?thesis
  proof (cases err)
    case None
    then show ?thesis using Pair
      by (simp add: lower16BitPrivateIP_find split: option.splits)
  next
    case (Some e)
    then show ?thesis using Pair by (simp add: lower16BitPrivateIP_error)
  qed
qed

text \<open>
  C8. With no \<open>MachineID\<close> function, the machine identifier is taken from the first
  enumerated address that is a non-loopback IPv4 address in 10/8, 172.16/12, 192.168/16 or
  169.254/16: it is the lower 16 bits of that address, its third octet times 256 plus its
  fourth, computed as in the source. When the start-time check has passed: an error of the
  enumerator is returned as it is; with no such address \<open>New\<close> fails with
  \<open>ErrNoPrivateAddress\<close>; with one, and no check function rejecting the identifier,
  \<open>New\<close> returns a generator with it; and an error of a supplied \<open>MachineID\<close> function
  is returned as it is.
\<close>

theorem machineID_resolution:
  "lower16BitPrivateIP (as, Some e) = (0, Some e) \<and>
   lower16BitPrivateIP (as, None) =
     (case find qualifying as of
        None \<Rightarrow> (0, Some ErrNoPrivateAddress)
      | Some a \<Rightarrow> (lower16_of a, None)) \<and>
   (\<forall>a. find qualifying as = Some a \<longrightarrow>
      (\<exists>ip mask o1 o2 o3 o4. a = IPNet ip mask \<and> To4 ip = [o1, o2, o3, o4] \<and>
         lower16_of a = push_bit 8 (ucast o3) + ucast o4 \<and>
         unat (lower16_of a) = 256 * unat o3 + unat o4)) \<and>
   (\<not> After (st_StartTime st) now \<and> st_MachineID st = None \<longrightarrow>
      New now (as, Some e) st = (None, Some e) \<and>
      (find qualifying as = None \<longrightarrow> New now (as, None) st = (None, Some ErrNoPrivateAddress)) \<and>
      (\<forall>a. find qualifying as = Some a \<and>
           (\<forall>check. st_CheckMachineID st = Some check \<longrightarrow> check (lower16_of a)) \<longrightarrow>
           (\<exists>sf. New now (as, None) st = (Some sf, None) \<and> sf_machineID sf = lower16_of a))) \<and>
   (\<not> After (st_StartTime st) now \<and> st_MachineID st = Some (m, Some e) \<longrightarrow>
      New now ia st = (None, Some e))"
proof -
  have octets: "\<exists>ip mask o1 o2 o3 o4. a = IPNet ip mask \<and> To4 ip = [o1, o2, o3, o4] \<and>
         lower16_of a = push_bit 8 (ucast o3) + ucast o4 \<and>
         unat (lower16_of a) = 256 * unat o3 + unat o4"
    if "find qualifying as = Some a" for a
  proof -
    have q: "qualifying a" using that by (auto simp add: find_Some_iff)
    then obtain ip mask where a: "a = IPNet ip mask" by (cases a) (simp_all add: qualifying_def)
    then have "To4 ip \<noteq> []" using q by (simp add: qualifying_def)
    then obtain o1 o2 o3 o4 where t: "To4 ip = [o1, o2, o3, o4]" using To4_cases [of ip] by auto
    show ?thesis
      using a t lower16_of_IPNet [OF t, of mask] by simp
  qed
  have new_err: "New now (as, Some e) st = (None, Some e)"
    if "\<not> After (st_StartTime st) now" "st_MachineID st = None"
    using that by (simp add: New_def Let_def lower16BitPrivateIP_error)
  have new_none: "New now (as, None) st = (None, Some ErrNoPrivateAddress)"
    if "\<not> After (st_StartTime st) now" "st_MachineID st = None" "find qualifying as = None"
    using that by (simp add: New_def Let_def lower16BitPrivateIP_find)
  have new_some: "\<exists>sf. New now (as, None) st = (Some sf, None) \<and> sf_machineID sf = lower16_of a"
    if "\<not> After (st_StartTime st) now" "st_MachineID st = None" "find qualifying as = Some a"
      "\<forall>check. st_CheckMachineID st = Some check \<longrightarrow> check (lower16_of a)" for a
    using that by (auto simp add: New_def Let_def lower16BitPrivateIP_find split: option.splits)
  have new_supplied: "New now ia st = (None, Some e)"
    if "\<not> After (st_StartTime st) now" "st_MachineID st = Some (m, Some e)"
    using that by (simp add: New_def Let_def)
  have c1: "lower16BitPrivateIP (as, Some e) = (0, Some e)"
    by (rule lower16BitPrivateIP_error)
  have c2: "lower16BitPrivateIP (as, None) =
     (case find qualifying as of
        None \<Rightarrow> (0, Some ErrNoPrivateAddress)
      | Some a \<Rightarrow> (lower16_of a, None))"
    by (rule lower16BitPrivateIP_find)
  show ?thesis
    using c1 c2 octets new_err new_none new_some new_supplied by blast
qed

theorem machineID_resolution_witness:
  "\<not> After (st_StartTime Settings_auto) now_1 \<and> st_MachineID Settings_auto = None \<and>
   find qualifying addrs_example
     = Some (IPNet [0, 0, 0, 0, 0, 0, 0, 0, 0, 0, 255, 255, 192, 168, 1, 2] []) \<and>
   lower16BitPrivateIP (addrs_example, None) = (258, None) \<and>
   fst (New now_1 (addrs_example, None) Settings_auto) \<noteq> None \<and>
   sf_machineID (the (fst (New now_1 (addrs_example, None) Settings_auto))) = 258 \<and>
   find qualifying [OtherAddr ''unix'', IPNet [8, 8, 8, 8] []] = None \<and>
   New now_1 ([OtherAddr ''unix'', IPNet [8, 8, 8, 8] []], None) Settings_auto
     = (None, Some ErrNoPrivateAddress) \<and>
   New now_1 (addrs_example, Some (ErrOther ''route ip+net: no such network interface''))
       Settings_auto
     = (None, Some (ErrOther ''route ip+net: no such network interface'')) \<and>
   \<not> After (st_StartTime (Settings_auto\<lparr>st_MachineID := Some (0, Some (ErrOther ''no id''))\<rparr>))
       now_1 \<and>
   New now_1 ([], None) (Settings_auto\<lparr>st_MachineID := Some (0, Some (ErrOther ''no id''))\<rparr>)
     = (None, Some (ErrOther ''no id''))"
proof -
  let ?a = "IPNet [0, 0, 0, 0, 0, 0, 0, 0, 0, 0, 255, 255, 192, 168, 1, 2] []"
  let ?st = "Settings_auto\<lparr>st_MachineID := Some (0, Some (ErrOther ''no id''))\<rparr>"
  have a: "\<not> After (st_StartTime Settings_auto) now_1" "st_MachineID Settings_auto = None"
    by code_simp+
  have b: "find qualifying addrs_example = Some ?a" by code_simp
  have c: "lower16_of ?a = 258" by code_simp
  have d: "find qualifying [OtherAddr ''unix'', IPNet [8, 8, 8, 8] []] = None" by code_simp
  have e: "\<forall>check. st_CheckMachineID Settings_auto = Some check \<longrightarrow> check (lower16_of ?a)"
    by (simp add: Settings_auto_def)
  have f: "\<not> After (st_StartTime ?st) now_1" "st_MachineID ?st = Some (0, Some (ErrOther ''no id''))"
    by code_simp+
  note t1 = machineID_resolution [of addrs_example
        "ErrOther ''route ip+net: no such network interface''" Settings_auto now_1]
  note t2 = machineID_resolution [of "[OtherAddr ''unix'', IPNet [8, 8, 8, 8] []]" _
        Settings_auto now_1]
  note t3 = machineID_resolution [of _ "ErrOther ''no id''" ?st now_1 0 "([], None)"]
  have g: "lower16BitPrivateIP (addrs_example, None) = (258, None)"
    using t1 b c by simp
  obtain sf where sf: "New now_1 (addrs_example, None) Settings_auto = (Some sf, None)"
    "sf_machineID sf = 258"
    using t1 a b c e by auto
  have h: "New now_1 ([OtherAddr ''unix'', IPNet [8, 8, 8, 8] []], None) Settings_auto
     = (None, Some ErrNoPrivateAddress)"
    using t2 a d by blast
  have i: "New now_1 (addrs_example, Some (ErrOther ''route ip+net: no such network interface''))
       Settings_auto
     = (None, Some (ErrOther ''route ip+net: no such network interface''))"
    using t1 a by blast
  have j: "New now_1 ([], None) ?st = (None, Some (ErrOther ''no id''))"
    using t3 f by blast
  show ?thesis
    using a b d f(1) g h i j sf by simp
qed

section \<open>The start-time check\<close>

text \<open>
  C7, as amended. When \<open>StartTime\<close> is strictly after the clock reading, \<open>New\<close> fails
  with \<open>ErrStartTimeAhead\<close>. \<open>New\<close> returns that error exactly when \<open>StartTime\<close> is
  strictly after the clock reading or the machine identifier's source (the supplied
  \<open>MachineID\<close> function, or the enumerator when there is none) itself returned that
  error value, which \<open>New\<close> passes on. A zero \<open>StartTime\<close> is not after any clock reading
  from year 1 on, and the generator then counts from 2014-09-01.
\<close>

theorem New_StartTimeAhead:
  "(After (st_StartTime st) now \<longrightarrow> New now ia st = (None, Some ErrStartTimeAhead)) \<and>
   (snd (New now ia st) = Some ErrStartTimeAhead \<longleftrightarrow>
      st_StartTime st > now \<or>
      (case st_MachineID st of
         None \<Rightarrow> snd ia = Some ErrStartTimeAhead
       | Some r \<Rightarrow> snd r = Some ErrStartTimeAhead)) \<and>
   (IsZero (st_StartTime st) \<and> zeroTime \<le> now \<longrightarrow>
      \<not> After (st_StartTime st) now \<and>
      (\<forall>sf. New now ia st = (Some sf, None) \<longrightarrow> sf_startTime sf = toSnowflakeTime Date_2014_9_1))"
proof -
  have ahead: "New now ia st = (None, Some ErrStartTimeAhead)" if "After (st_StartTime st) now"
    using that by (simp add: New_def)
  have rest: "snd (New now ia st) = Some ErrStartTimeAhead \<longleftrightarrow>
      (case st_MachineID st of
         None \<Rightarrow> snd ia = Some ErrStartTimeAhead
       | Some r \<Rightarrow> snd r = Some ErrStartTimeAhead)"
    if "\<not> After (st_StartTime st) now"
  proof (cases "st_MachineID st")
    case None
    then show ?thesis
      using that snd_lower16BitPrivateIP [of ia]
      by (cases "lower16BitPrivateIP ia")
        (auto simp add: New_def Let_def split: option.splits)
  next
    case (Some r)
    then show ?thesis
      using that by (cases r) (auto simp add: New_def Let_def split: option.splits)
  qed
  have zero: "sf_startTime sf = toSnowflakeTime Date_2014_9_1"
    if "IsZero (st_StartTime st)" "New now ia st = (Some sf, None)" for sf
    using that by (auto simp add: New_def Let_def split: if_splits option.splits prod.splits)
  have not_ahead: "\<not> After (st_StartTime st) now" if "IsZero (st_StartTime st)" "zeroTime \<le> now"
    using that by (simp add: After_def IsZero_def)
  have after: "After (st_StartTime st) now \<longleftrightarrow> st_StartTime st > now"
    by (simp add: After_def)
  have "snd (New now ia st) = Some ErrStartTimeAhead" if "After (st_StartTime st) now"
    using ahead [OF that] by simp
  then show ?thesis
    using ahead rest zero not_ahead after by blast
qed

theorem New_StartTimeAhead_witness:
  "After (st_StartTime (Settings_5\<lparr>st_StartTime := now_1 + 1\<rparr>)) now_1 \<and>
   New now_1 ([], None) (Settings_5\<lparr>st_StartTime := now_1 + 1\<rparr>) = (None, Some ErrStartTimeAhead) \<and>
   IsZero (st_StartTime Settings_5) \<and> zeroTime \<le> now_1 \<and>
   New now_1 ([], None) Settings_5 = (Some generator_5, None) \<and>
   sf_startTime generator_5 = toSnowflakeTime Date_2014_9_1"
proof -
  have a: "After (st_StartTime (Settings_5\<lparr>st_StartTime := now_1 + 1\<rparr>)) now_1" by code_simp
  have b: "IsZero (st_StartTime Settings_5)" "zeroTime \<le> now_1" by code_simp+
  have c: "New now_1 ([], None) Settings_5 = (Some generator_5, None)" by code_simp
  show ?thesis
    using a b c
      New_StartTimeAhead [of "Settings_5\<lparr>st_StartTime := now_1 + 1\<rparr>" now_1 "([], None)"]
      New_StartTimeAhead [of Settings_5 now_1 "([], None)"]
    by blast
qed

text \<open>
  The claim as stated, that \<open>New\<close> fails with \<open>ErrStartTimeAhead\<close> only when
  \<open>StartTime\<close> is after the clock reading, fails when the supplied \<open>MachineID\<close> function
  returns that error value.
\<close>

theorem New_StartTimeAhead_counterexample:
  "\<not> (snd (New now_1 ([], None) (Settings_5\<lparr>st_MachineID := Some (0, Some ErrStartTimeAhead)\<rparr>))
         = Some ErrStartTimeAhead
       \<longleftrightarrow> After (st_StartTime (Settings_5\<lparr>st_MachineID := Some (0, Some ErrStartTimeAhead)\<rparr>))
             now_1)"
  by code_simp

end
